theory Spec2Isabelle
  imports Main "HOL-Library.Multiset" "HOL-Library.Char_ord" "HOL-Library.List_Lexorder"
begin

section \<open>Strings\<close>

text \<open>
  A \<^verbatim>\<open>std::string\<close> is a list of bytes. The helpers of \<^verbatim>\<open>core/StringUtils\<close> and of
  boost that \<^verbatim>\<open>SessionCodeSearch.cpp\<close> calls are not part of the file; each one is
  modelled below, next to the words that describe it.
\<close>

text \<open>
  Modelled from the spec: \<^verbatim>\<open>boost::algorithm::to_lower_copy\<close> is not in the file. The spec
  calls the matching "case-insensitive"; the model lowers the ASCII letters A to Z and
  leaves every other byte alone.
\<close>

definition toLowerChar :: "char \<Rightarrow> char" where
  "toLowerChar c =
     (case map_of (zip ''ABCDEFGHIJKLMNOPQRSTUVWXYZ'' ''abcdefghijklmnopqrstuvwxyz'') c of
        Some l \<Rightarrow> l
      | None \<Rightarrow> c)"

definition to_lower_copy :: "string \<Rightarrow> string" where
  "to_lower_copy s = map toLowerChar s"

text \<open>\<^verbatim>\<open>std::string::find(ch, pos)\<close>: the first index at or after \<open>pos\<close> that holds \<open>ch\<close>;
  \<open>None\<close> stands for \<^verbatim>\<open>npos\<close>.\<close>

fun index_of :: "char \<Rightarrow> string \<Rightarrow> nat option" where
  "index_of c [] = None"
| "index_of c (x # xs) = (if x = c then Some 0 else map_option Suc (index_of c xs))"

definition string_find :: "string \<Rightarrow> char \<Rightarrow> nat \<Rightarrow> nat option" where
  "string_find s c pos = map_option (\<lambda>i. i + pos) (index_of c (drop pos s))"

text \<open>\<^verbatim>\<open>std::string::rfind(ch)\<close>: the last index that holds \<open>ch\<close>.\<close>

fun string_rfind :: "string \<Rightarrow> char \<Rightarrow> nat option" where
  "string_rfind [] c = None"
| "string_rfind (x # xs) c =
     (case string_rfind xs c of
        Some i \<Rightarrow> Some (Suc i)
      | None \<Rightarrow> if x = c then Some 0 else None)"

text \<open>
  Modelled from the spec: \<^verbatim>\<open>string_utils::getExtension\<close> is not in the file. The spec speaks
  of a candidate that "has a low-value extension"; the model returns the text from the
  last dot to the end, and the empty string when there is no dot.
\<close>

definition getExtension :: "string \<Rightarrow> string" where
  "getExtension x = (case string_rfind x (CHR ''.'') of Some i \<Rightarrow> drop i x | None \<Rightarrow> [])"

text \<open>
  Modelled from the spec: \<^verbatim>\<open>string_utils::isSubsequence\<close> is not in the file. "Subsequence
  match: term characters appear in candidate in order, not necessarily contiguous." The
  three-argument form looks at the first \<open>other_n\<close> characters of the term only ("only the
  portion before the first \<^verbatim>\<open>:\<close> participates in matching"); the four-argument form lowers
  both strings first when asked to ignore case.
\<close>

fun isSubsequence :: "string \<Rightarrow> string \<Rightarrow> bool" where
  "isSubsequence self [] = True"
| "isSubsequence [] (c # cs) = False"
| "isSubsequence (x # xs) (c # cs) =
     (if x = c then isSubsequence xs cs else isSubsequence xs (c # cs))"

definition isSubsequenceN :: "string \<Rightarrow> string \<Rightarrow> nat \<Rightarrow> bool" where
  "isSubsequenceN self other other_n = isSubsequence self (take other_n other)"

definition isSubsequenceCI :: "string \<Rightarrow> string \<Rightarrow> nat \<Rightarrow> bool \<Rightarrow> bool" where
  "isSubsequenceCI self other other_n caseInsensitive =
     (if caseInsensitive
      then isSubsequenceN (to_lower_copy self) (to_lower_copy other) other_n
      else isSubsequenceN self other other_n)"

text \<open>
  Modelled from the spec: \<^verbatim>\<open>string_utils::subsequenceIndices\<close> is not in the file. "Compute
  the subsequence's matched character positions": each character of the query is looked
  up from the position after the previous match; a character that is not found adds no
  position, so the result is shorter than the query exactly when the query is not a
  subsequence.
\<close>

fun subsequenceIndicesFrom :: "string \<Rightarrow> nat \<Rightarrow> string \<Rightarrow> nat list" where
  "subsequenceIndicesFrom s start [] = []"
| "subsequenceIndicesFrom s start (c # cs) =
     (case string_find s c start of
        None \<Rightarrow> subsequenceIndicesFrom s start cs
      | Some i \<Rightarrow> i # subsequenceIndicesFrom s (i + 1) cs)"

definition subsequenceIndices :: "string \<Rightarrow> string \<Rightarrow> nat list" where
  "subsequenceIndices s query = subsequenceIndicesFrom s 0 query"

text \<open>\<^verbatim>\<open>boost::algorithm::istarts_with\<close>: a prefix test that ignores case.\<close>

definition istarts_with :: "string \<Rightarrow> string \<Rightarrow> bool" where
  "istarts_with name term =
     (take (length term) (to_lower_copy name) = to_lower_copy term)"

section \<open>Scoring a match\<close>

text \<open>
  \<^verbatim>\<open>scoreMatch\<close> reads \<^verbatim>\<open>matches[j]\<close> and \<^verbatim>\<open>suggestion[matchPos - 1]\<close> without a check. A read
  past the end is undefined behaviour in C++; the model returns \<open>None\<close> there. The C++
  \<^verbatim>\<open>int\<close> is modelled by \<open>int\<close>: a score is a sum of at most \<open>query_n\<close> positions of the
  suggestion (each raised by 3 at most), far below \<open>2^31\<close> for any file or symbol name.
\<close>

definition isDelim :: "bool \<Rightarrow> char \<Rightarrow> bool" where
  "isDelim isFile prevChar \<longleftrightarrow>
     prevChar = CHR ''_'' \<or> prevChar = CHR ''-'' \<or> (\<not> isFile \<and> prevChar = CHR ''.'')"

text \<open>One pass of the loop body for index \<open>j\<close>: the amount added to \<open>result\<close>.\<close>

definition scoreStep :: "string \<Rightarrow> bool \<Rightarrow> nat list \<Rightarrow> nat \<Rightarrow> int option" where
  "scoreStep suggestion isFile matches j =
     (if j < length matches then
        (let matchPos = int (matches ! j) in
         if matchPos \<ge> 1 \<and> \<not> nat (matchPos - 1) < length suggestion then None
         else
           (let matchPos1 =
                  (if matchPos \<ge> 1 \<and> isDelim isFile (suggestion ! nat (matchPos - 1))
                   then int j + 1 else matchPos);
                extension = getExtension suggestion;
                matchPos2 =
                  (if to_lower_copy extension = ''.rd'' then matchPos1 + 3 else matchPos1)
            in Some matchPos2))
      else None)"

function scoreLoop :: "string \<Rightarrow> bool \<Rightarrow> nat list \<Rightarrow> nat \<Rightarrow> nat \<Rightarrow> int \<Rightarrow> int option" where
  "scoreLoop suggestion isFile matches query_n j result =
     (if j < query_n then
        (case scoreStep suggestion isFile matches j of
           None \<Rightarrow> None
         | Some matchPos \<Rightarrow> scoreLoop suggestion isFile matches query_n (j + 1) (result + matchPos))
      else Some result)"
  by pat_completeness auto
termination
  by (relation "measure (\<lambda>(suggestion, isFile, matches, query_n, j, result). query_n - j)") auto

declare scoreLoop.simps [simp del]

definition scoreMatch :: "string \<Rightarrow> string \<Rightarrow> bool \<Rightarrow> int option" where
  "scoreMatch suggestion query isFile =
     (if suggestion = query then Some 0
      else
        (let query_n = length query;
             matches = subsequenceIndices (to_lower_copy suggestion) (to_lower_copy query)
         in case scoreLoop suggestion isFile matches query_n 0 0 of
              None \<Rightarrow> None
            | Some result \<Rightarrow> Some (if isFile then result + 1 else result)))"

text \<open>\<^verbatim>\<open>ScorePairComparator\<close>: a candidate is a pair (index, score); only the score is compared.\<close>

type_synonym PairIntInt = "int \<times> int"

definition ScorePairComparator :: "PairIntInt \<Rightarrow> PairIntInt \<Rightarrow> bool" where
  "ScorePairComparator lhs rhs \<longleftrightarrow> snd lhs < snd rhs"

section \<open>The bounded merge\<close>

text \<open>
  \<^verbatim>\<open>filterScores\<close>: the loop runs \<open>maxAmount\<close> times (not at all when \<open>maxAmount\<close> is not
  positive) and moves one of the two counters forward per pass while a list has items
  left. The first argument of \<open>filterLoop\<close> is the number of passes still to run.
\<close>

fun filterLoop :: "nat \<Rightarrow> PairIntInt list \<Rightarrow> PairIntInt list \<Rightarrow> nat \<Rightarrow> nat \<Rightarrow> nat \<times> nat" where
  "filterLoop 0 score1 score2 s1Count s2Count = (s1Count, s2Count)"
| "filterLoop (Suc k) score1 score2 s1Count s2Count =
     (if s1Count = length score1 then
        (if s2Count < length score2
         then filterLoop k score1 score2 s1Count (s2Count + 1)
         else filterLoop k score1 score2 s1Count s2Count)
      else if s2Count = length score2 then
        (if s1Count < length score1
         then filterLoop k score1 score2 (s1Count + 1) s2Count
         else filterLoop k score1 score2 s1Count s2Count)
      else if snd (score1 ! s1Count) \<le> snd (score2 ! s2Count)
        then filterLoop k score1 score2 (s1Count + 1) s2Count
        else filterLoop k score1 score2 s1Count (s2Count + 1))"

definition filterScores ::
  "PairIntInt list \<Rightarrow> PairIntInt list \<Rightarrow> int \<Rightarrow> PairIntInt list \<times> PairIntInt list" where
  "filterScores score1 score2 maxAmount =
     (case filterLoop (nat maxAmount) score1 score2 0 0 of
        (s1Count, s2Count) \<Rightarrow> (take s1Count score1, take s2Count score2))"

section \<open>Data model\<close>

text \<open>
  Modelled from the spec: the classes of \<^verbatim>\<open>core/r_util/RSourceIndex.hpp\<close>,
  \<^verbatim>\<open>core/FileInfo.hpp\<close>, \<^verbatim>\<open>core/system/FileChangeEvent.hpp\<close> and
  \<^verbatim>\<open>clang/DefinitionIndex.hpp\<close> are not in the file; only their uses are. The records hold
  the members that \<^verbatim>\<open>SessionCodeSearch.cpp\<close> reads. "SourceItem: kind, name, extraInfo,
  originContext (owning file/document identity), line, column, nestingLevel."
\<close>

datatype RSourceItemType = RNone | RFunction | RMethod | RClass

record RSourceItem =
  r_type :: RSourceItemType
  r_name :: string
  r_signature :: "string list"
  r_braceLevel :: int
  r_line :: int
  r_column :: int
  r_context :: string

record RSourceIndex =
  idx_context :: string
  idx_items :: "RSourceItem list"

record FileInfo =
  absolutePath :: string
  lastWriteTime :: int

datatype FileChangeEventType = NoneEvent | FileAdded | FileModified | FileRemoved

record FileChangeEvent =
  ev_type :: FileChangeEventType
  ev_fileInfo :: FileInfo

datatype CppDefinitionKind =
    CppInvalidDefinition | CppNamespaceDefinition | CppClassDefinition
  | CppStructDefinition | CppEnumDefinition | CppFunctionDefinition
  | CppMemberFunctionDefinition | CppOtherDefinition

record CppDefinition =
  cpp_kind :: CppDefinitionKind
  cpp_name :: string
  cpp_filePath :: string
  cpp_line :: nat
  cpp_column :: nat

text \<open>\<^verbatim>\<open>core::Error\<close>: only \<^verbatim>\<open>isPathNotFoundError\<close> looks inside it.\<close>

datatype Error = NoSuchFileOrDirectory | OtherFailure string

definition isPathNotFoundError :: "Error \<Rightarrow> bool" where
  "isPathNotFoundError error \<longleftrightarrow> error = NoSuchFileOrDirectory"

text \<open>
  The capabilities the file consumes from the rest of the session (the file system, the
  project context, the R parser, the wildcard matcher of \<^verbatim>\<open>regex_utils\<close>, the C++ definition
  index) are fields of an environment; the code under study never looks inside them.
\<close>

record Env =
  readAndDecodeFile :: "string \<Rightarrow> Error + string"
  parseRSource :: "string \<Rightarrow> RSourceItem list"
  createAliasedPath :: "string \<Rightarrow> string"
  resolveAliasedPath :: "string \<Rightarrow> string"
  isUserFile :: "string \<Rightarrow> bool"
  isDirectory :: "string \<Rightarrow> bool"
  hasTextMimeType :: "string \<Rightarrow> bool"
  hasProject :: bool
  isWithinProjectDirectory :: "string \<Rightarrow> bool"
  hasFileMonitor :: bool
  textMatches :: "string \<Rightarrow> string \<Rightarrow> bool \<Rightarrow> bool \<Rightarrow> bool"
  searchDefinitions :: "string \<Rightarrow> CppDefinition list"

text \<open>
  Modelled from the spec: \<^verbatim>\<open>FilePath::filename\<close> and \<^verbatim>\<open>FilePath::extensionLowerCase\<close> are not
  in the file. A file is trackable when its "extension/basename matches a known
  source/text-like set": the basename is the text after the last slash, the extension runs
  from the last dot of the basename.
\<close>

definition filename :: "string \<Rightarrow> string" where
  "filename p = (case string_rfind p (CHR ''/'') of Some i \<Rightarrow> drop (Suc i) p | None \<Rightarrow> p)"

definition extensionLowerCase :: "string \<Rightarrow> string" where
  "extensionLowerCase p = to_lower_copy (getExtension (filename p))"

text \<open>
  Modelled from the spec: \<^verbatim>\<open>RSourceIndex::search\<close> is not in the file. "Matching a plain term
  against a symbol name is case-insensitive and supports two modes: exact-prefix and
  subsequence"; "pattern-wildcard queries (term contains a wildcard) instead perform
  glob-style matching". Each item found carries the context of the index it comes from.
  The constructor \<^verbatim>\<open>RSourceIndex(context, code)\<close> runs the external parser.
\<close>

definition hasWildcard :: "string \<Rightarrow> bool" where
  "hasWildcard term \<longleftrightarrow> CHR ''*'' \<in> set term"

definition nameMatches :: "Env \<Rightarrow> string \<Rightarrow> bool \<Rightarrow> bool \<Rightarrow> string \<Rightarrow> bool" where
  "nameMatches env term prefixOnly caseSensitive name =
     (if hasWildcard term then textMatches env name term prefixOnly caseSensitive
      else if prefixOnly then
        (if caseSensitive then take (length term) name = term else istarts_with name term)
      else isSubsequenceCI name term (length term) (\<not> caseSensitive))"

definition RSourceIndex_search ::
  "Env \<Rightarrow> RSourceIndex \<Rightarrow> string \<Rightarrow> bool \<Rightarrow> bool \<Rightarrow> RSourceItem list" where
  "RSourceIndex_search env index term prefixOnly caseSensitive =
     map (\<lambda>item. item\<lparr>r_context := idx_context index\<rparr>)
       (filter (\<lambda>item. nameMatches env term prefixOnly caseSensitive (r_name item))
          (idx_items index))"

definition newRSourceIndex :: "Env \<Rightarrow> string \<Rightarrow> string \<Rightarrow> RSourceIndex" where
  "newRSourceIndex env ctx code = \<lparr>idx_context = ctx, idx_items = parseRSource env code\<rparr>"

section \<open>The entry store\<close>

record Entry =
  fileInfo :: FileInfo
  pIndex :: "RSourceIndex option"

definition hasIndex :: "Entry \<Rightarrow> bool" where
  "hasIndex entry \<longleftrightarrow> pIndex entry \<noteq> None"

text \<open>
  Modelled from the spec: \<^verbatim>\<open>core::fileInfoPathLessThan\<close> is not in the file. "Entries are kept
  in a set ordered by file identity; uniqueness key = file identity": the model compares
  the absolute paths as byte strings.
\<close>

definition fileInfoPathLessThan :: "FileInfo \<Rightarrow> FileInfo \<Rightarrow> bool" where
  "fileInfoPathLessThan a b \<longleftrightarrow> absolutePath a < absolutePath b"

definition entryLess :: "Entry \<Rightarrow> Entry \<Rightarrow> bool" where
  "entryLess a b \<longleftrightarrow> fileInfoPathLessThan (fileInfo a) (fileInfo b)"

text \<open>
  \<^verbatim>\<open>std::set<Entry>\<close> is the list of its elements in iteration order; an iterator is a
  position in that list. \<^verbatim>\<open>insert\<close> returns the position of the new element and \<open>True\<close>, or
  the position of the equivalent element already there and \<open>False\<close>. A hint changes the
  cost of an insertion, not its result.
\<close>

fun set_insert :: "Entry \<Rightarrow> Entry list \<Rightarrow> Entry list \<times> nat \<times> bool" where
  "set_insert e [] = ([e], 0, True)"
| "set_insert e (x # xs) =
     (if entryLess e x then (e # x # xs, 0, True)
      else if entryLess x e then
        (case set_insert e xs of (ys, i, inserted) \<Rightarrow> (x # ys, Suc i, inserted))
      else (x # xs, 0, False))"

definition set_insert_hint :: "nat \<Rightarrow> Entry \<Rightarrow> Entry list \<Rightarrow> Entry list" where
  "set_insert_hint hintIter e es = fst (set_insert e es)"

definition set_erase :: "nat \<Rightarrow> Entry list \<Rightarrow> Entry list" where
  "set_erase it es = take it es @ drop (Suc it) es"

fun set_find :: "Entry \<Rightarrow> Entry list \<Rightarrow> nat option" where
  "set_find e [] = None"
| "set_find e (x # xs) =
     (if \<not> entryLess e x \<and> \<not> entryLess x e then Some 0 else map_option Suc (set_find e xs))"

text \<open>
  The state of the module: the members of the global \<^verbatim>\<open>s_projectIndex\<close> (\<open>entries_\<close>,
  \<open>indexing_\<close>, \<open>indexingQueue_\<close>, written here without the underscore), the map of the
  live-document indexes held by \<^verbatim>\<open>rSourceIndex()\<close> in key order, and the records written
  by \<^verbatim>\<open>LOG_ERROR\<close>, each with its \<^verbatim>\<open>src-file\<close> property.
\<close>

record State =
  entries :: "Entry list"
  indexing :: bool
  indexingQueue :: "FileChangeEvent list"
  indexesMap :: "(string \<times> RSourceIndex) list"
  errorLog :: "(Error \<times> string) list"

definition isSourceFile :: "Env \<Rightarrow> FileInfo \<Rightarrow> bool" where
  "isSourceFile env fi =
     (let filePath = absolutePath fi in
      if \<not> isUserFile env filePath then False
      else
        (let ext = extensionLowerCase filePath; fname = filename filePath in
         \<not> isDirectory env filePath \<and>
         (ext = ''.r'' \<or> ext = ''.rnw'' \<or> ext = ''.rmd'' \<or> ext = ''.rmarkdown'' \<or>
          ext = ''.rhtml'' \<or> ext = ''.rd'' \<or> ext = ''.h'' \<or> ext = ''.hpp'' \<or>
          ext = ''.c'' \<or> ext = ''.cpp'' \<or> ext = ''.json'' \<or>
          fname = ''DESCRIPTION'' \<or> fname = ''NAMESPACE'' \<or> fname = ''README'' \<or>
          fname = ''NEWS'' \<or> fname = ''Makefile'' \<or> fname = ''configure'' \<or>
          fname = ''cleanup'' \<or> fname = ''Makevars'' \<or> hasTextMimeType env filePath)))"

definition isIndexableSourceFile :: "Env \<Rightarrow> FileInfo \<Rightarrow> bool" where
  "isIndexableSourceFile env fi =
     (let filePath = absolutePath fi in
      \<not> isDirectory env filePath \<and> extensionLowerCase filePath = ''.r'')"

text \<open>
  \<^verbatim>\<open>enqueFiles\<close> and \<^verbatim>\<open>enqueFileChange\<close>: the call of \<^verbatim>\<open>scheduleIncrementalWork\<close> hands
  \<^verbatim>\<open>dequeAndIndex\<close> to the scheduler, which is outside the file; the model keeps the flag.
\<close>

definition enqueFiles :: "Env \<Rightarrow> FileInfo list \<Rightarrow> State \<Rightarrow> State" where
  "enqueFiles env files s =
     (let q = indexingQueue s @
                map (\<lambda>fi. \<lparr>ev_type = FileAdded, ev_fileInfo = fi\<rparr>) (filter (isSourceFile env) files)
      in if q \<noteq> [] \<and> \<not> indexing s
         then s\<lparr>indexingQueue := q, indexing := True\<rparr>
         else s\<lparr>indexingQueue := q\<rparr>)"

definition enqueFileChange :: "Env \<Rightarrow> FileChangeEvent \<Rightarrow> State \<Rightarrow> State" where
  "enqueFileChange env event s =
     (if \<not> isSourceFile env (ev_fileInfo event) then s
      else s\<lparr>indexingQueue := indexingQueue s @ [event], indexing := True\<rparr>)"

definition updateIndexEntry :: "Env \<Rightarrow> FileInfo \<Rightarrow> State \<Rightarrow> State" where
  "updateIndexEntry env fi s =
     (let insertEntry = (\<lambda>pIdx.
            (let entry = \<lparr>fileInfo = fi, pIndex = pIdx\<rparr> in
             case set_insert entry (entries s) of
               (es, it, inserted) \<Rightarrow>
                 if inserted then s\<lparr>entries := es\<rparr>
                 else if it = 0
                   then s\<lparr>entries := fst (set_insert entry (set_erase it (entries s)))\<rparr>
                   else s\<lparr>entries := set_insert_hint (it - 1) entry (set_erase it (entries s))\<rparr>))
      in
      if isIndexableSourceFile env fi then
        (let filePath = absolutePath fi in
         case readAndDecodeFile env filePath of
           Inl error \<Rightarrow>
             if \<not> isPathNotFoundError error
             then s\<lparr>errorLog := errorLog s @ [(error, filePath)]\<rparr>
             else s
         | Inr code \<Rightarrow>
             insertEntry (Some (newRSourceIndex env (createAliasedPath env filePath) code)))
      else insertEntry None)"

definition removeIndexEntry :: "FileInfo \<Rightarrow> State \<Rightarrow> State" where
  "removeIndexEntry fi s =
     (let entry = \<lparr>fileInfo = fi, pIndex = None\<rparr> in
      case set_find entry (entries s) of
        Some it \<Rightarrow> s\<lparr>entries := set_erase it (entries s)\<rparr>
      | None \<Rightarrow> s)"

definition dequeAndIndex :: "Env \<Rightarrow> State \<Rightarrow> State \<times> bool" where
  "dequeAndIndex env s =
     (let s1 =
        (case indexingQueue s of
           [] \<Rightarrow> s
         | event # rest \<Rightarrow>
             (let s0 = s\<lparr>indexingQueue := rest\<rparr>; fi = ev_fileInfo event in
              case ev_type event of
                FileAdded \<Rightarrow> updateIndexEntry env fi s0
              | FileModified \<Rightarrow> updateIndexEntry env fi s0
              | FileRemoved \<Rightarrow> removeIndexEntry fi s0
              | NoneEvent \<Rightarrow> s0));
          s2 = s1\<lparr>indexing := (indexingQueue s1 \<noteq> [])\<rparr>
      in (s2, indexing s2))"

definition clear :: "State \<Rightarrow> State" where
  "clear s = s\<lparr>indexing := False, indexingQueue := [], entries := []\<rparr>"

definition onFileMonitorDisabled :: "State \<Rightarrow> State" where
  "onFileMonitorDisabled s = clear s"

definition onFilesChanged :: "Env \<Rightarrow> FileChangeEvent list \<Rightarrow> State \<Rightarrow> State" where
  "onFilesChanged env events s = fold (enqueFileChange env) events s"

text \<open>
  The scheduler calls \<^verbatim>\<open>dequeAndIndex\<close> again while it returns true. \<open>runSteps n\<close> is the
  state after \<open>n\<close> such calls, however they are spread over time slices.
\<close>

fun runSteps :: "Env \<Rightarrow> nat \<Rightarrow> State \<Rightarrow> State" where
  "runSteps env 0 s = s"
| "runSteps env (Suc n) s = runSteps env n (fst (dequeAndIndex env s))"

function drain :: "Env \<Rightarrow> State \<Rightarrow> State" where
  "drain env s =
     (case dequeAndIndex env s of (s', pMore) \<Rightarrow> if pMore then drain env s' else s')"
  by pat_completeness auto
termination
  by (relation "measure (\<lambda>(env, s). length (indexingQueue s))")
     (auto simp: dequeAndIndex_def updateIndexEntry_def removeIndexEntry_def Let_def
           split: list.splits FileChangeEventType.splits sum.splits prod.splits
                  option.splits if_splits)

declare drain.simps [simp del]

section \<open>Searching symbols\<close>

text \<open>
  \<^verbatim>\<open>SourceFileIndex::searchSource\<close>: the loop over \<open>entries\<close>; the last argument is the
  vector \<open>pItems\<close> filled so far.
\<close>

fun SourceFileIndex_searchSource ::
  "Env \<Rightarrow> string \<Rightarrow> nat \<Rightarrow> bool \<Rightarrow> string set \<Rightarrow> Entry list \<Rightarrow> RSourceItem list
     \<Rightarrow> RSourceItem list" where
  "SourceFileIndex_searchSource env term maxResults prefixOnly excludeContexts [] pItems = pItems"
| "SourceFileIndex_searchSource env term maxResults prefixOnly excludeContexts (entry # rest) pItems =
     (case pIndex entry of
        None \<Rightarrow>
          SourceFileIndex_searchSource env term maxResults prefixOnly excludeContexts rest pItems
      | Some index \<Rightarrow>
          if idx_context index \<in> excludeContexts
          then SourceFileIndex_searchSource env term maxResults prefixOnly excludeContexts rest pItems
          else
            (let pItems' = pItems @ RSourceIndex_search env index term prefixOnly False in
             if length pItems' \<ge> maxResults then take maxResults pItems'
             else SourceFileIndex_searchSource env term maxResults prefixOnly excludeContexts
                    rest pItems'))"

definition sourceDatabaseFilter :: "Env \<Rightarrow> RSourceIndex \<Rightarrow> bool" where
  "sourceDatabaseFilter env index =
     (if hasProject env
      then isWithinProjectDirectory env (resolveAliasedPath env (idx_context index))
      else True)"

definition indexes :: "State \<Rightarrow> RSourceIndex list" where
  "indexes s = map snd (indexesMap s)"

text \<open>\<^verbatim>\<open>searchSourceDatabase\<close>: the loop over the live-document indexes; the state of the loop
  is \<open>pItems\<close> and \<open>pContextsSearched\<close>.\<close>

fun searchSourceDatabaseLoop ::
  "Env \<Rightarrow> string \<Rightarrow> nat \<Rightarrow> bool \<Rightarrow> RSourceIndex list \<Rightarrow> RSourceItem list \<Rightarrow> string set
     \<Rightarrow> RSourceItem list \<times> string set" where
  "searchSourceDatabaseLoop env term maxResults prefixOnly [] pItems ctxs = (pItems, ctxs)"
| "searchSourceDatabaseLoop env term maxResults prefixOnly (index # rest) pItems ctxs =
     (if \<not> sourceDatabaseFilter env index
      then searchSourceDatabaseLoop env term maxResults prefixOnly rest pItems ctxs
      else
        (let ctxs' = insert (idx_context index) ctxs;
             pItems' = pItems @ RSourceIndex_search env index term prefixOnly False
         in if length pItems' \<ge> maxResults then (take maxResults pItems', ctxs')
            else searchSourceDatabaseLoop env term maxResults prefixOnly rest pItems' ctxs'))"

definition searchSourceDatabase ::
  "Env \<Rightarrow> State \<Rightarrow> string \<Rightarrow> nat \<Rightarrow> bool \<Rightarrow> RSourceItem list \<times> string set" where
  "searchSourceDatabase env s term maxResults prefixOnly =
     searchSourceDatabaseLoop env term maxResults prefixOnly (indexes s) [] {}"

text \<open>The loop that appends the project items to \<open>pItems\<close>, with its early exit.\<close>

fun addProjectItems ::
  "nat \<Rightarrow> RSourceItem list \<Rightarrow> RSourceItem list \<Rightarrow> bool \<Rightarrow> RSourceItem list \<times> bool" where
  "addProjectItems maxResults [] pItems pMore = (pItems, pMore)"
| "addProjectItems maxResults (sourceItem # rest) pItems pMore =
     (let pItems' = pItems @ [sourceItem] in
      if length pItems' > maxResults then (take maxResults pItems', True)
      else addProjectItems maxResults rest pItems' pMore)"

definition searchSource ::
  "Env \<Rightarrow> State \<Rightarrow> string \<Rightarrow> nat \<Rightarrow> bool \<Rightarrow> RSourceItem list \<times> bool" where
  "searchSource env s term maxResults prefixOnly =
     (case searchSourceDatabase env s term maxResults prefixOnly of
        (pItems, srcDBContexts) \<Rightarrow>
          if length pItems > maxResults then (take maxResults pItems, True)
          else
            (let maxProjResults = maxResults - length pItems;
                 projItems = SourceFileIndex_searchSource env term maxProjResults prefixOnly
                               srcDBContexts (entries s) []
             in addProjectItems maxResults projItems pItems False))"

section \<open>Searching file names\<close>

definition enforceMaxResults ::
  "nat \<Rightarrow> string list \<Rightarrow> string list \<Rightarrow> bool \<Rightarrow> (string list \<times> string list \<times> bool) \<times> bool" where
  "enforceMaxResults maxResults names paths pMore =
     (if length names > maxResults
      then ((take maxResults names, take maxResults paths, True), True)
      else ((names, paths, pMore), False))"

text \<open>\<^verbatim>\<open>regexIfWildcardPattern\<close> yields a pattern when the term holds a star; the match against
  the pattern is the environment's.\<close>

definition termQueryEnd :: "string \<Rightarrow> nat" where
  "termQueryEnd term = (case string_find term (CHR '':'') 0 of Some i \<Rightarrow> i | None \<Rightarrow> length term)"

definition projectFileMatches :: "Env \<Rightarrow> string \<Rightarrow> bool \<Rightarrow> string \<Rightarrow> bool" where
  "projectFileMatches env term prefixOnly name =
     (if hasWildcard term then textMatches env name term prefixOnly False
      else if prefixOnly then istarts_with name term
      else isSubsequenceCI name term (termQueryEnd term) True)"

fun SourceFileIndex_searchFilesLoop ::
  "Env \<Rightarrow> string \<Rightarrow> nat \<Rightarrow> bool \<Rightarrow> Entry list \<Rightarrow> string list \<Rightarrow> string list \<Rightarrow> bool
     \<Rightarrow> string list \<times> string list \<times> bool" where
  "SourceFileIndex_searchFilesLoop env term maxResults prefixOnly [] names paths pMore =
     (names, paths, pMore)"
| "SourceFileIndex_searchFilesLoop env term maxResults prefixOnly (entry # rest) names paths pMore =
     (let filePath = absolutePath (fileInfo entry); name = filename filePath in
      if projectFileMatches env term prefixOnly name then
        (case enforceMaxResults maxResults (names @ [filename filePath])
                (paths @ [createAliasedPath env filePath]) pMore of
           (r, stop) \<Rightarrow>
             if stop then r
             else (case r of (names', paths', pMore') \<Rightarrow>
                     SourceFileIndex_searchFilesLoop env term maxResults prefixOnly rest
                       names' paths' pMore'))
      else SourceFileIndex_searchFilesLoop env term maxResults prefixOnly rest names paths pMore)"

definition SourceFileIndex_searchFiles ::
  "Env \<Rightarrow> State \<Rightarrow> string \<Rightarrow> nat \<Rightarrow> bool \<Rightarrow> string list \<times> string list \<times> bool" where
  "SourceFileIndex_searchFiles env s term maxResults prefixOnly =
     SourceFileIndex_searchFilesLoop env term maxResults prefixOnly (entries s) [] [] False"

definition databaseFileMatches :: "Env \<Rightarrow> string \<Rightarrow> string \<Rightarrow> bool" where
  "databaseFileMatches env term fname =
     (if hasWildcard term then textMatches env fname term True False
      else isSubsequenceN fname term (termQueryEnd term))"

fun searchSourceDatabaseFilesLoop ::
  "Env \<Rightarrow> string \<Rightarrow> nat \<Rightarrow> RSourceIndex list \<Rightarrow> string list \<Rightarrow> string list \<Rightarrow> bool
     \<Rightarrow> string list \<times> string list \<times> bool" where
  "searchSourceDatabaseFilesLoop env term maxResults [] names paths pMore = (names, paths, pMore)"
| "searchSourceDatabaseFilesLoop env term maxResults (index # rest) names paths pMore =
     (let ctx = idx_context index in
      if ctx = [] then searchSourceDatabaseFilesLoop env term maxResults rest names paths pMore
      else
        (let fname = filename (resolveAliasedPath env ctx) in
         if databaseFileMatches env term fname then
           (case enforceMaxResults maxResults (names @ [fname]) (paths @ [idx_context index]) pMore of
              (r, stop) \<Rightarrow>
                if stop then r
                else (case r of (names', paths', pMore') \<Rightarrow>
                        searchSourceDatabaseFilesLoop env term maxResults rest names' paths' pMore'))
         else searchSourceDatabaseFilesLoop env term maxResults rest names paths pMore))"

definition searchSourceDatabaseFiles ::
  "Env \<Rightarrow> State \<Rightarrow> string \<Rightarrow> nat \<Rightarrow> string list \<times> string list \<times> bool" where
  "searchSourceDatabaseFiles env s term maxResults =
     searchSourceDatabaseFilesLoop env term maxResults (indexes s) [] [] False"

definition searchFiles ::
  "Env \<Rightarrow> State \<Rightarrow> string \<Rightarrow> nat \<Rightarrow> string list \<times> string list \<times> bool" where
  "searchFiles env s term maxResults =
     (if hasFileMonitor env then SourceFileIndex_searchFiles env s term maxResults False
      else searchSourceDatabaseFiles env s term maxResults)"

section \<open>The search request\<close>

datatype SourceItemType = SNone | SFunction | SMethod | SClass | SEnum | SNamespace

record SourceItem =
  si_type :: SourceItemType
  si_name :: string
  si_extraInfo :: string
  si_context :: string
  si_line :: int
  si_column :: int

fun joinTypes :: "string list \<Rightarrow> string" where
  "joinTypes [] = []"
| "joinTypes [t] = t"
| "joinTypes (t # ts) = t @ '', '' @ joinTypes ts"

definition fromRSourceItem :: "RSourceItem \<Rightarrow> SourceItem" where
  "fromRSourceItem rSourceItem =
     \<lparr>si_type = (case r_type rSourceItem of
                   RFunction \<Rightarrow> SFunction | RMethod \<Rightarrow> SMethod | RClass \<Rightarrow> SClass
                 | RNone \<Rightarrow> SNone),
      si_name = r_name rSourceItem,
      si_extraInfo = (if length (r_signature rSourceItem) > 0
                      then ''{'' @ joinTypes (r_signature rSourceItem) @ ''}'' else []),
      si_context = r_context rSourceItem,
      si_line = r_line rSourceItem,
      si_column = r_column rSourceItem\<rparr>"

text \<open>
  Modelled from the spec: \<^verbatim>\<open>safe_convert::numberTo\<close> is not in the file, and the spec leaves
  conversions to the collaborators. The call \<^verbatim>\<open>numberTo<int>(value, 1)\<close> converts the unsigned
  line or column of a C++ definition to an \<^verbatim>\<open>int\<close> and yields the default given, 1, when
  the value does not fit.
\<close>

definition numberTo_int :: "nat \<Rightarrow> int \<Rightarrow> int" where
  "numberTo_int input defaultValue =
     (if int input < 2 ^ 31 then int input else defaultValue)"

definition fromCppDefinition :: "Env \<Rightarrow> CppDefinition \<Rightarrow> SourceItem" where
  "fromCppDefinition env cppDefinition =
     \<lparr>si_type = (case cpp_kind cppDefinition of
                   CppInvalidDefinition \<Rightarrow> SNone
                 | CppNamespaceDefinition \<Rightarrow> SNamespace
                 | CppClassDefinition \<Rightarrow> SClass
                 | CppStructDefinition \<Rightarrow> SClass
                 | CppEnumDefinition \<Rightarrow> SEnum
                 | CppFunctionDefinition \<Rightarrow> SFunction
                 | CppMemberFunctionDefinition \<Rightarrow> SMethod
                 | CppOtherDefinition \<Rightarrow> SNone),
      si_name = cpp_name cppDefinition,
      si_extraInfo = [],
      si_context = createAliasedPath env (cpp_filePath cppDefinition),
      si_line = numberTo_int (cpp_line cppDefinition) 1,
      si_column = numberTo_int (cpp_column cppDefinition) 1\<rparr>"

text \<open>The candidates \<^verbatim>\<open>searchCode\<close> collects: both collection calls pass the literal \<open>1E2\<close>.\<close>

definition collectFiles :: "Env \<Rightarrow> State \<Rightarrow> string \<Rightarrow> string list \<times> string list \<times> bool" where
  "collectFiles env s term = searchFiles env s term 100"

definition collectRSourceItems :: "Env \<Rightarrow> State \<Rightarrow> string \<Rightarrow> RSourceItem list \<times> bool" where
  "collectRSourceItems env s term = searchSource env s term 100 False"

definition collectSourceItems :: "Env \<Rightarrow> State \<Rightarrow> string \<Rightarrow> SourceItem list" where
  "collectSourceItems env s term =
     map fromRSourceItem (fst (collectRSourceItems env s term)) @
     map (fromCppDefinition env) (searchDefinitions env term)"

text \<open>The scoring loops: candidate \<open>i\<close> gets the pair (\<open>i\<close>, score). A score that is undefined
  leaves the whole request undefined.\<close>

fun scoreFrom :: "nat \<Rightarrow> string list \<Rightarrow> string \<Rightarrow> bool \<Rightarrow> PairIntInt list option" where
  "scoreFrom i [] term isFile = Some []"
| "scoreFrom i (n # ns) term isFile =
     (case scoreMatch n term isFile of
        None \<Rightarrow> None
      | Some sc \<Rightarrow>
          (case scoreFrom (i + 1) ns term isFile of
             None \<Rightarrow> None
           | Some rest \<Rightarrow> Some ((int i, sc) # rest)))"

text \<open>
  \<^verbatim>\<open>std::sort\<close> with a comparator: the C++ standard promises a rearrangement of the input
  in which no element is followed by one that compares less, and nothing about the order
  of elements that compare equal. Every such rearrangement is a possible outcome.
\<close>

definition std_sort :: "('a \<Rightarrow> 'a \<Rightarrow> bool) \<Rightarrow> 'a list \<Rightarrow> 'a list \<Rightarrow> bool" where
  "std_sort cmp xs ys \<longleftrightarrow> mset ys = mset xs \<and> sorted_wrt (\<lambda>a b. \<not> cmp b a) ys"

record SearchResult =
  file_names :: "string list"
  file_paths :: "string list"
  source_items :: "SourceItem list"
  more_available :: bool

text \<open>The part of \<^verbatim>\<open>searchCode\<close> after the two sorts: the bounded merge, the two flags
  computed from the sizes before and after it, and the filtered buckets.\<close>

definition buildResult ::
  "string list \<Rightarrow> string list \<Rightarrow> SourceItem list \<Rightarrow> PairIntInt list \<Rightarrow> PairIntInt list \<Rightarrow> nat
     \<Rightarrow> SearchResult" where
  "buildResult names paths srcItems fileScores srcItemScores maxResults =
     (let srcItemScoresSizeBefore = length srcItemScores;
          fileScoresSizeBefore = length fileScores
      in case filterScores fileScores srcItemScores (int maxResults) of
           (fileScores', srcItemScores') \<Rightarrow>
             (let moreFilesAvailable = fileScoresSizeBefore > length fileScores';
                  moreSourceItemsAvailable = srcItemScoresSizeBefore > length srcItemScores'
              in \<lparr>file_names = map (\<lambda>pair. names ! nat (fst pair)) fileScores',
                  file_paths = map (\<lambda>pair. paths ! nat (fst pair)) fileScores',
                  source_items = map (\<lambda>pair. srcItems ! nat (fst pair)) srcItemScores',
                  more_available = (moreFilesAvailable \<or> moreSourceItemsAvailable)\<rparr>))"

text \<open>
  \<^verbatim>\<open>searchCode\<close>, from the decoded parameters on: \<open>term\<close> and \<open>maxResults\<close>, a \<^verbatim>\<open>size_t\<close>
  that was converted from an \<^verbatim>\<open>int\<close> and so converts back to the \<^verbatim>\<open>int\<close> that \<^verbatim>\<open>filterScores\<close>
  takes without change. It is a relation because of the two calls of \<^verbatim>\<open>std::sort\<close>; it
  relates a request to no response when a score is undefined.
\<close>

inductive searchCode :: "Env \<Rightarrow> State \<Rightarrow> string \<Rightarrow> nat \<Rightarrow> SearchResult \<Rightarrow> bool" where
  searchCodeI:
    "collectFiles env s term = (names, paths, moreFiles) \<Longrightarrow>
     collectSourceItems env s term = srcItems \<Longrightarrow>
     scoreFrom 0 names term True = Some fileScores \<Longrightarrow>
     std_sort ScorePairComparator fileScores fileScoresSorted \<Longrightarrow>
     scoreFrom 0 (map si_name srcItems) term False = Some srcItemScores \<Longrightarrow>
     std_sort ScorePairComparator srcItemScores srcItemScoresSorted \<Longrightarrow>
     searchCode env s term maxResults
       (buildResult names paths srcItems fileScoresSorted srcItemScoresSorted maxResults)"

section \<open>Predicates used in the proofs\<close>

text \<open>The invariant of the loop of \<^verbatim>\<open>filterScores\<close>: the counters are in range, and every
  item already counted scores no more than every item of the other list not yet counted.\<close>

definition cut_ok :: "PairIntInt list \<Rightarrow> PairIntInt list \<Rightarrow> nat \<Rightarrow> nat \<Rightarrow> bool" where
  "cut_ok s1 s2 c1 c2 \<longleftrightarrow>
     c1 \<le> length s1 \<and> c2 \<le> length s2 \<and>
     (\<forall>i j. i < c1 \<and> c2 \<le> j \<and> j < length s2 \<longrightarrow> snd (s1 ! i) \<le> snd (s2 ! j)) \<and>
     (\<forall>i j. j < c2 \<and> c1 \<le> i \<and> i < length s1 \<longrightarrow> snd (s2 ! j) \<le> snd (s1 ! i))"

text \<open>
  The scoring as the documentation words it, as a sum over the query positions instead of a
  loop. The position that counts for a match right after a delimiter is a parameter:
  \<open>scoreMatch_as_claimed\<close> takes the query index \<open>j\<close> itself, \<open>scoreMatch_documented\<close> takes
  \<open>j + 1\<close>.
\<close>

definition boundaryPosition :: "bool \<Rightarrow> string \<Rightarrow> (nat \<Rightarrow> int) \<Rightarrow> nat \<Rightarrow> nat \<Rightarrow> int" where
  "boundaryPosition isFile suggestion queryIndex j p =
     (if p \<ge> 1 \<and> isDelim isFile (suggestion ! (p - 1)) then queryIndex j else int p)"

definition positionalScore :: "(nat \<Rightarrow> int) \<Rightarrow> string \<Rightarrow> string \<Rightarrow> bool \<Rightarrow> int" where
  "positionalScore queryIndex suggestion query isFile =
     (if suggestion = query then 0
      else
        (let matches = subsequenceIndices (to_lower_copy suggestion) (to_lower_copy query);
             penalty = (if to_lower_copy (getExtension suggestion) = ''.rd'' then 3 else 0)
         in sum_list (map (\<lambda>j. boundaryPosition isFile suggestion queryIndex j (matches ! j) + penalty)
                        [0..<length query])
            + (if isFile then 1 else 0)))"

definition scoreMatch_as_claimed :: "string \<Rightarrow> string \<Rightarrow> bool \<Rightarrow> int" where
  "scoreMatch_as_claimed = positionalScore (\<lambda>j. int j)"

definition scoreMatch_documented :: "string \<Rightarrow> string \<Rightarrow> bool \<Rightarrow> int" where
  "scoreMatch_documented = positionalScore (\<lambda>j. int j + 1)"

text \<open>The amount one pass of the loop of \<^verbatim>\<open>scoreMatch\<close> adds when its reads are in range.\<close>

definition stepValue :: "string \<Rightarrow> bool \<Rightarrow> nat list \<Rightarrow> nat \<Rightarrow> int" where
  "stepValue suggestion isFile matches j =
     boundaryPosition isFile suggestion (\<lambda>j. int j + 1) j (matches ! j) +
     (if to_lower_copy (getExtension suggestion) = ''.rd'' then 3 else 0)"

text \<open>
  The file identity of an entry is its absolute path. The invariant of the entry store says
  that the entries are in strictly ascending order of identity, as the elements of a
  \<^verbatim>\<open>std::set\<close> are; \<open>applyEvent\<close> is the switch of \<^verbatim>\<open>dequeAndIndex\<close>; \<open>upsert\<close> is the tail
  of \<^verbatim>\<open>updateIndexEntry\<close>, from "attempt to add the entry" on.
\<close>

definition entryPath :: "Entry \<Rightarrow> string" where
  "entryPath e = absolutePath (fileInfo e)"

definition entriesFor :: "string \<Rightarrow> State \<Rightarrow> Entry list" where
  "entriesFor p s = filter (\<lambda>e. entryPath e = p) (entries s)"

definition storeInvariant :: "State \<Rightarrow> bool" where
  "storeInvariant s \<longleftrightarrow> sorted_wrt (<) (map entryPath (entries s))"

definition applyEvent :: "Env \<Rightarrow> FileChangeEvent \<Rightarrow> State \<Rightarrow> State" where
  "applyEvent env event s =
     (case ev_type event of
        FileAdded \<Rightarrow> updateIndexEntry env (ev_fileInfo event) s
      | FileModified \<Rightarrow> updateIndexEntry env (ev_fileInfo event) s
      | FileRemoved \<Rightarrow> removeIndexEntry (ev_fileInfo event) s
      | NoneEvent \<Rightarrow> s)"

definition upsert :: "Entry \<Rightarrow> Entry list \<Rightarrow> Entry list" where
  "upsert entry es =
     (case set_insert entry es of
        (es', it, inserted) \<Rightarrow>
          if inserted then es'
          else if it = 0 then fst (set_insert entry (set_erase it es))
          else set_insert_hint (it - 1) entry (set_erase it es))"

text \<open>Two candidate names are in ascending order of score for a term when both scores are
  defined and the first is not greater than the second.\<close>

definition scoreLeq :: "string \<Rightarrow> bool \<Rightarrow> string \<Rightarrow> string \<Rightarrow> bool" where
  "scoreLeq term isFile a b =
     (case scoreMatch a term isFile of
        None \<Rightarrow> False
      | Some x \<Rightarrow> (case scoreMatch b term isFile of None \<Rightarrow> False | Some y \<Rightarrow> x \<le> y))"

section \<open>A small session used for the concrete instances\<close>

text \<open>
  One readable R file (\<^verbatim>\<open>/p/run.R\<close>, whose parse yields one function named after its
  content), one file that cannot be decoded (\<^verbatim>\<open>/p/bad.R\<close>); every other path does not exist.
\<close>

definition exampleItem :: "string \<Rightarrow> RSourceItem" where
  "exampleItem nm = \<lparr>r_type = RFunction, r_name = nm, r_signature = [], r_braceLevel = 0,
                      r_line = 1, r_column = 1, r_context = []\<rparr>"

definition exampleEnv :: Env where
  "exampleEnv =
     \<lparr>readAndDecodeFile = (\<lambda>p. if p = ''/p/run.R'' then Inr ''run''
                              else if p = ''/p/bad.R'' then Inl (OtherFailure ''invalid byte sequence'')
                              else Inl NoSuchFileOrDirectory),
      parseRSource = (\<lambda>code. [exampleItem code]),
      createAliasedPath = (\<lambda>p. p),
      resolveAliasedPath = (\<lambda>p. p),
      isUserFile = (\<lambda>p. True),
      isDirectory = (\<lambda>p. False),
      hasTextMimeType = (\<lambda>p. False),
      hasProject = False,
      isWithinProjectDirectory = (\<lambda>p. True),
      hasFileMonitor = True,
      textMatches = (\<lambda>name term prefixOnly caseSensitive. False),
      searchDefinitions = (\<lambda>term. [])\<rparr>"

definition emptyState :: State where
  "emptyState = \<lparr>entries = [], indexing = False, indexingQueue = [], indexesMap = [], errorLog = []\<rparr>"

definition fileEvent :: "FileChangeEventType \<Rightarrow> string \<Rightarrow> FileChangeEvent" where
  "fileEvent t p = \<lparr>ev_type = t, ev_fileInfo = \<lparr>absolutePath = p, lastWriteTime = 0\<rparr>\<rparr>"

text \<open>The session after \<^verbatim>\<open>/p/run.R\<close> has been indexed from disk; the same session with the
  file also open as a live document whose unsaved content defines \<^verbatim>\<open>runLive\<close>.\<close>

definition indexedState :: State where
  "indexedState =
     drain exampleEnv (enqueFileChange exampleEnv (fileEvent FileAdded ''/p/run.R'') emptyState)"

definition liveState :: State where
  "liveState =
     indexedState
       \<lparr>indexesMap := [(''doc1'', \<lparr>idx_context = ''/p/run.R'', idx_items = [exampleItem ''runLive'']\<rparr>)]\<rparr>"

text \<open>Seventeen header files, \<^verbatim>\<open>aa.h\<close> to \<^verbatim>\<open>aq.h\<close>, whose names all score the same for the
  term \<^verbatim>\<open>a\<close>.\<close>

definition tieState :: State where
  "tieState =
     drain exampleEnv
       (enqueFiles exampleEnv
          (map (\<lambda>c. \<lparr>absolutePath = ''/p/a'' @ [c] @ ''.h'', lastWriteTime = 0\<rparr>)
             ''abcdefghijklmnopq'') emptyState)"

text \<open>A live document that defines 101 functions named \<^verbatim>\<open>f\<close>, and an environment whose C++
  definition index knows one more.\<close>

definition bigState :: State where
  "bigState =
     emptyState\<lparr>indexesMap :=
       [(''doc1'', \<lparr>idx_context = ''/p/big.R'', idx_items = replicate 101 (exampleItem ''f'')\<rparr>)]\<rparr>"

definition cppEnv :: Env where
  "cppEnv =
     exampleEnv\<lparr>searchDefinitions :=
       (\<lambda>term. [\<lparr>cpp_kind = CppFunctionDefinition, cpp_name = ''f'', cpp_filePath = ''/p/f.cpp'',
                  cpp_line = 1, cpp_column = 1\<rparr>])\<rparr>"

text \<open>Two header files that the term \<^verbatim>\<open>b\<close> ranks against their scan order.\<close>

definition orderState :: State where
  "orderState =
     drain exampleEnv
       (enqueFiles exampleEnv
          [\<lparr>absolutePath = ''/p/ab.h'', lastWriteTime = 0\<rparr>,
           \<lparr>absolutePath = ''/p/b.h'', lastWriteTime = 0\<rparr>] emptyState)"

text \<open>The environment once the project's file monitor is off.\<close>

definition noMonitorEnv :: Env where
  "noMonitorEnv = exampleEnv\<lparr>hasFileMonitor := False\<rparr>"

section \<open>The bounded merge keeps the smallest scores\<close>

lemma sorted_snd_nth:
  "sorted (map snd s) \<Longrightarrow> i \<le> j \<Longrightarrow> j < length s \<Longrightarrow> snd (s ! i) \<le> snd (s ! j)"
  using sorted_nth_mono [of "map snd s" i j] by simp

lemma cut_ok_step1:
  assumes "sorted (map snd s2)" "cut_ok s1 s2 c1 c2" "c1 < length s1"
    and "c2 < length s2 \<Longrightarrow> snd (s1 ! c1) \<le> snd (s2 ! c2)"
  shows "cut_ok s1 s2 (Suc c1) c2"
  unfolding cut_ok_def
proof (intro conjI allI impI)
  show "Suc c1 \<le> length s1" using assms(3) by simp
  show "c2 \<le> length s2" using assms(2) by (simp add: cut_ok_def)
next
  fix i j assume h: "i < Suc c1 \<and> c2 \<le> j \<and> j < length s2"
  show "snd (s1 ! i) \<le> snd (s2 ! j)"
  proof (cases "i = c1")
    case True
    have "snd (s1 ! c1) \<le> snd (s2 ! c2)" using assms(4) h by simp
    also have "\<dots> \<le> snd (s2 ! j)" using sorted_snd_nth [OF assms(1)] h by simp
    finally show ?thesis using True by simp
  next
    case False
    then have "i < c1" using h by simp
    then show ?thesis using assms(2) h by (simp add: cut_ok_def)
  qed
next
  fix i j assume "j < c2 \<and> Suc c1 \<le> i \<and> i < length s1"
  then show "snd (s2 ! j) \<le> snd (s1 ! i)" using assms(2) by (simp add: cut_ok_def)
qed

lemma cut_ok_step2:
  assumes "sorted (map snd s1)" "cut_ok s1 s2 c1 c2" "c2 < length s2"
    and "c1 < length s1 \<Longrightarrow> snd (s2 ! c2) \<le> snd (s1 ! c1)"
  shows "cut_ok s1 s2 c1 (Suc c2)"
  unfolding cut_ok_def
proof (intro conjI allI impI)
  show "Suc c2 \<le> length s2" using assms(3) by simp
  show "c1 \<le> length s1" using assms(2) by (simp add: cut_ok_def)
next
  fix i j assume h: "j < Suc c2 \<and> c1 \<le> i \<and> i < length s1"
  show "snd (s2 ! j) \<le> snd (s1 ! i)"
  proof (cases "j = c2")
    case True
    have "snd (s2 ! c2) \<le> snd (s1 ! c1)" using assms(4) h by simp
    also have "\<dots> \<le> snd (s1 ! i)" using sorted_snd_nth [OF assms(1)] h by simp
    finally show ?thesis using True by simp
  next
    case False
    then have "j < c2" using h by simp
    then show ?thesis using assms(2) h by (simp add: cut_ok_def)
  qed
next
  fix i j assume "i < c1 \<and> Suc c2 \<le> j \<and> j < length s2"
  then show "snd (s1 ! i) \<le> snd (s2 ! j)" using assms(2) by (simp add: cut_ok_def)
qed

lemma filterLoop_inv:
  assumes "sorted (map snd s1)" "sorted (map snd s2)"
  shows "cut_ok s1 s2 c1 c2 \<Longrightarrow> filterLoop k s1 s2 c1 c2 = (d1, d2) \<Longrightarrow>
         cut_ok s1 s2 d1 d2 \<and> d1 + d2 = min (c1 + c2 + k) (length s1 + length s2)"
proof (induction k arbitrary: c1 c2)
  case 0
  then show ?case by (auto simp: cut_ok_def)
next
  case (Suc k)
  have bnd: "c1 \<le> length s1" "c2 \<le> length s2" using Suc.prems(1) by (simp_all add: cut_ok_def)
  consider (a) "c1 = length s1" "c2 < length s2"
    | (b) "c1 = length s1" "c2 = length s2"
    | (c) "c1 < length s1" "c2 = length s2"
    | (d) "c1 < length s1" "c2 < length s2" "snd (s1 ! c1) \<le> snd (s2 ! c2)"
    | (e) "c1 < length s1" "c2 < length s2" "\<not> snd (s1 ! c1) \<le> snd (s2 ! c2)"
    using bnd by fastforce
  then show ?case
  proof cases
    case a
    then have "filterLoop k s1 s2 c1 (Suc c2) = (d1, d2)" using Suc.prems(2) by simp
    moreover have "cut_ok s1 s2 c1 (Suc c2)"
      using cut_ok_step2 [OF assms(1) Suc.prems(1)] a by simp
    ultimately show ?thesis using Suc.IH [of c1 "Suc c2"] by simp
  next
    case b
    then have "filterLoop k s1 s2 c1 c2 = (d1, d2)" using Suc.prems(2) by simp
    then show ?thesis using Suc.IH [OF Suc.prems(1)] b by simp
  next
    case c
    then have "filterLoop k s1 s2 (Suc c1) c2 = (d1, d2)" using Suc.prems(2) by simp
    moreover have "cut_ok s1 s2 (Suc c1) c2"
      using cut_ok_step1 [OF assms(2) Suc.prems(1)] c by simp
    ultimately show ?thesis using Suc.IH [of "Suc c1" c2] by simp
  next
    case d
    then have "filterLoop k s1 s2 (Suc c1) c2 = (d1, d2)" using Suc.prems(2) by simp
    moreover have "cut_ok s1 s2 (Suc c1) c2"
      using cut_ok_step1 [OF assms(2) Suc.prems(1)] d by simp
    ultimately show ?thesis using Suc.IH [of "Suc c1" c2] by simp
  next
    case e
    then have "filterLoop k s1 s2 c1 (Suc c2) = (d1, d2)" using Suc.prems(2) by simp
    moreover have "cut_ok s1 s2 c1 (Suc c2)"
      using cut_ok_step2 [OF assms(1) Suc.prems(1)] e by simp
    ultimately show ?thesis using Suc.IH [of c1 "Suc c2"] by simp
  qed
qed

lemma cut_ok_kept_le_dropped:
  assumes "sorted (map snd s1)" "sorted (map snd s2)" "cut_ok s1 s2 d1 d2"
    and "x \<in> set (take d1 s1 @ take d2 s2)" "y \<in> set (drop d1 s1 @ drop d2 s2)"
  shows "snd x \<le> snd y"
proof -
  have b: "d1 \<le> length s1" "d2 \<le> length s2" using assms(3) by (simp_all add: cut_ok_def)
  from assms(4) consider (x1) i where "i < d1" "x = s1 ! i" | (x2) j where "j < d2" "x = s2 ! j"
    using b by (auto simp: in_set_conv_nth)
  then show ?thesis
  proof cases
    case x1
    from assms(5) consider (y1) i' where "d1 \<le> i'" "i' < length s1" "y = s1 ! i'"
      | (y2) j' where "d2 \<le> j'" "j' < length s2" "y = s2 ! j'"
      by (auto simp: in_set_conv_nth) (metis add.commute le_add2 less_diff_conv)+
    then show ?thesis
    proof cases
      case y1
      then show ?thesis using sorted_snd_nth [OF assms(1), of i i'] x1 by simp
    next
      case y2
      then show ?thesis using assms(3) x1 by (simp add: cut_ok_def)
    qed
  next
    case x2
    from assms(5) consider (y1) i' where "d1 \<le> i'" "i' < length s1" "y = s1 ! i'"
      | (y2) j' where "d2 \<le> j'" "j' < length s2" "y = s2 ! j'"
      by (auto simp: in_set_conv_nth) (metis add.commute le_add2 less_diff_conv)+
    then show ?thesis
    proof cases
      case y1
      then show ?thesis using assms(3) x2 by (simp add: cut_ok_def)
    next
      case y2
      then show ?thesis using sorted_snd_nth [OF assms(2), of j j'] x2 by simp
    qed
  qed
qed

lemma sort_append_le:
  fixes A B :: "int list"
  assumes "\<forall>x\<in>set A. \<forall>y\<in>set B. x \<le> y"
  shows "sort (A @ B) = sort A @ sort B"
proof (rule properties_for_sort)
  show "mset (sort A @ sort B) = mset (A @ B)" by simp
  show "sorted (sort A @ sort B)" using assms by (simp add: sorted_append)
qed

lemma take_smallest:
  fixes kept dropped all :: "int list"
  assumes "mset all = mset kept + mset dropped" "\<forall>x\<in>set kept. \<forall>y\<in>set dropped. x \<le> y"
  shows "mset (take (length kept) (sort all)) = mset kept"
proof -
  have "sort all = sort (kept @ dropped)"
    by (rule properties_for_sort) (simp_all add: assms(1))
  also have "\<dots> = sort kept @ sort dropped" by (rule sort_append_le [OF assms(2)])
  finally show ?thesis by simp
qed

lemma filterLoop_start:
  assumes "sorted (map snd s1)" "sorted (map snd s2)" "filterLoop k s1 s2 0 0 = (d1, d2)"
  shows "cut_ok s1 s2 d1 d2 \<and> d1 + d2 = min k (length s1 + length s2)"
proof -
  have "cut_ok s1 s2 0 0" by (simp add: cut_ok_def)
  from filterLoop_inv [OF assms(1,2) this assms(3)] show ?thesis by simp
qed

lemma mset_take_drop_scores:
  "mset (map snd (s1 @ s2)) =
   mset (map snd (take d1 s1 @ take d2 s2)) + mset (map snd (drop d1 s1 @ drop d2 s2))"
proof -
  have "mset (map snd s1) = mset (map snd (take d1 s1)) + mset (map snd (drop d1 s1))"
    by (metis append_take_drop_id map_append mset_append)
  moreover have "mset (map snd s2) = mset (map snd (take d2 s2)) + mset (map snd (drop d2 s2))"
    by (metis append_take_drop_id map_append mset_append)
  ultimately show ?thesis by simp
qed

lemma std_sort_sorted_scores:
  assumes "std_sort ScorePairComparator xs ys"
  shows "sorted (map snd ys)"
proof -
  have "sorted_wrt (\<lambda>a b. snd a \<le> snd b) ys"
    using assms by (simp add: std_sort_def ScorePairComparator_def not_less)
  then show ?thesis by (simp add: sorted_map)
qed

lemma std_sort_length: "std_sort cmp xs ys \<Longrightarrow> length ys = length xs"
  by (metis std_sort_def size_mset)

text \<open>
  Claim C2. For two candidate lists sorted ascending by score, of lengths \<open>m\<close> and \<open>n\<close>, and a
  cap \<open>K\<close> with \<open>0 \<le> K \<le> m + n\<close>, \<^verbatim>\<open>filterScores\<close> keeps a prefix of each list, \<open>K\<close> items in
  total, whose scores are the \<open>K\<close> smallest scores of both lists together; and the
  \<open>more_available\<close> flag that \<^verbatim>\<open>searchCode\<close> computes after the merge is true exactly when
  an item of either list was dropped, that is when \<open>K < m + n\<close>.
\<close>

theorem filterScores_keeps_K_smallest:
  assumes "sorted (map snd score1)" and "sorted (map snd score2)"
    and "0 \<le> K" and "K \<le> int (length score1 + length score2)"
    and "filterScores score1 score2 K = (kept1, kept2)"
  shows "int (length kept1 + length kept2) = K \<and>
         kept1 = take (length kept1) score1 \<and> kept2 = take (length kept2) score2 \<and>
         mset (map snd (kept1 @ kept2)) =
           mset (take (nat K) (sort (map snd (score1 @ score2)))) \<and>
         (more_available (buildResult names paths srcItems score1 score2 (nat K)) \<longleftrightarrow>
            length kept1 < length score1 \<or> length kept2 < length score2) \<and>
         (more_available (buildResult names paths srcItems score1 score2 (nat K)) \<longleftrightarrow>
            K < int (length score1 + length score2))"
proof -
  obtain d1 d2 where loop: "filterLoop (nat K) score1 score2 0 0 = (d1, d2)"
    by (cases "filterLoop (nat K) score1 score2 0 0") auto
  from filterLoop_start [OF assms(1,2) loop]
  have ok: "cut_ok score1 score2 d1 d2"
    and total: "d1 + d2 = min (nat K) (length score1 + length score2)" by simp_all
  have bnd: "d1 \<le> length score1" "d2 \<le> length score2" using ok by (simp_all add: cut_ok_def)
  have k1: "kept1 = take d1 score1" and k2: "kept2 = take d2 score2"
    using assms(5) loop by (simp_all add: filterScores_def)
  have l1: "length kept1 = d1" and l2: "length kept2 = d2" using k1 k2 bnd by simp_all
  have sum: "d1 + d2 = nat K" using total assms(3,4) by simp
  have count: "int (length kept1 + length kept2) = K" using sum l1 l2 assms(3) by simp
  let ?kept = "map snd (take d1 score1 @ take d2 score2)"
  let ?dropped = "map snd (drop d1 score1 @ drop d2 score2)"
  have le: "\<forall>x\<in>set ?kept. \<forall>y\<in>set ?dropped. x \<le> y"
    using cut_ok_kept_le_dropped [OF assms(1,2) ok] by auto
  have "mset (take (length ?kept) (sort (map snd (score1 @ score2)))) = mset ?kept"
    by (rule take_smallest [OF mset_take_drop_scores le])
  moreover have "length ?kept = nat K" using bnd sum by simp
  ultimately have smallest:
    "mset (map snd (kept1 @ kept2)) = mset (take (nat K) (sort (map snd (score1 @ score2))))"
    using k1 k2 by simp
  have cap: "int (nat K) = K" using assms(3) by simp
  have flag: "more_available (buildResult names paths srcItems score1 score2 (nat K)) \<longleftrightarrow>
                length kept1 < length score1 \<or> length kept2 < length score2"
    unfolding buildResult_def cap by (simp add: assms(5))
  have "length kept1 < length score1 \<or> length kept2 < length score2 \<longleftrightarrow>
          K < int (length score1 + length score2)"
    using l1 l2 bnd sum assms(3) by auto
  with flag count k1 k2 l1 l2 smallest show ?thesis by simp
qed

theorem filterScores_keeps_K_smallest_witness:
  "sorted (map snd [(0, 1), (1, 3 :: int)]) \<and> sorted (map snd [(0, 2), (1, 2), (2, 5 :: int)]) \<and>
   (0 :: int) \<le> 3 \<and> (3 :: int) \<le> int (length [(0 :: int, 1 :: int), (1, 3)] + length [(0 :: int, 2 :: int), (1, 2), (2, 5)]) \<and>
   filterScores [(0, 1), (1, 3)] [(0, 2), (1, 2), (2, 5)] 3 = ([(0, 1)], [(0, 2), (1, 2)]) \<and>
   mset (map snd ([(0, 1)] @ [(0, 2), (1, 2 :: int)])) =
     mset (take (nat 3) (sort (map snd ([(0 :: int, 1 :: int), (1, 3)] @ [(0, 2), (1, 2), (2, 5)])))) \<and>
   more_available (buildResult [] [] [] [(0, 1), (1, 3)] [(0, 2), (1, 2), (2, 5)] (nat 3))"
proof -
  have h1: "sorted (map snd [(0 :: int, 1 :: int), (1, 3)])" by simp
  have h2: "sorted (map snd [(0 :: int, 2 :: int), (1, 2), (2, 5)])" by simp
  have h3: "(0 :: int) \<le> 3" by simp
  have h4: "(3 :: int) \<le> int (length [(0 :: int, 1 :: int), (1, 3)] + length [(0 :: int, 2 :: int), (1, 2), (2, 5)])"
    by simp
  have h5: "filterScores [(0, 1), (1, 3)] [(0, 2), (1, 2), (2, 5)] 3 = ([(0, 1)], [(0, 2), (1, 2)])"
    by code_simp
  from filterScores_keeps_K_smallest [OF h1 h2 h3 h4 h5, of "[]" "[]" "[]"] h1 h2 h5
  show ?thesis by simp
qed

section \<open>Scoring\<close>

lemma index_of_Some: "index_of c xs = Some i \<Longrightarrow> i < length xs \<and> xs ! i = c"
  by (induction xs arbitrary: i) (auto split: if_splits)

lemma isSubsequence_Cons_index:
  "isSubsequence xs (c # cs) \<Longrightarrow>
   \<exists>i. index_of c xs = Some i \<and> isSubsequence (drop (Suc i) xs) cs"
  by (induction xs) (auto split: if_splits)

lemma subsequenceIndicesFrom_complete:
  "isSubsequence (drop k s) q \<Longrightarrow>
   length (subsequenceIndicesFrom s k q) = length q \<and>
   (\<forall>i\<in>set (subsequenceIndicesFrom s k q). i < length s)"
proof (induction q arbitrary: k)
  case Nil
  then show ?case by simp
next
  case (Cons c cs)
  from isSubsequence_Cons_index [OF Cons.prems]
  obtain i where i: "index_of c (drop k s) = Some i"
    and rest: "isSubsequence (drop (Suc i) (drop k s)) cs" by blast
  have "i < length (drop k s)" using index_of_Some [OF i] by simp
  then have lt: "i + k < length s" by simp
  have "isSubsequence (drop (i + k + 1) s) cs" using rest by (simp add: add.commute)
  from Cons.IH [OF this] show ?case using i lt by (simp add: string_find_def)
qed

lemma subsequenceIndices_complete:
  assumes "isSubsequence s q"
  shows "length (subsequenceIndices s q) = length q"
    and "\<forall>i\<in>set (subsequenceIndices s q). i < length s"
  using subsequenceIndicesFrom_complete [of 0 s q] assms by (simp_all add: subsequenceIndices_def)

lemma scoreStep_defined:
  assumes "j < length matches" "\<forall>p\<in>set matches. p < length suggestion"
  shows "scoreStep suggestion isFile matches j = Some (stepValue suggestion isFile matches j)"
proof -
  have "matches ! j < length suggestion" using assms by simp
  then show ?thesis
    using assms(1) by (auto simp: scoreStep_def stepValue_def boundaryPosition_def Let_def nat_diff_distrib)
qed

lemma scoreLoop_sum:
  assumes "query_n \<le> length matches" "\<forall>p\<in>set matches. p < length suggestion"
  shows "j \<le> query_n \<Longrightarrow>
         scoreLoop suggestion isFile matches query_n j result =
           Some (result + sum_list (map (stepValue suggestion isFile matches) [j..<query_n]))"
proof (induction "query_n - j" arbitrary: j result)
  case 0
  then show ?case by (simp add: scoreLoop.simps)
next
  case (Suc d)
  then have lt: "j < query_n" by simp
  then have "j < length matches" using assms(1) by simp
  from scoreStep_defined [OF this assms(2)]
  have step: "scoreStep suggestion isFile matches j = Some (stepValue suggestion isFile matches j)" .
  have "d = query_n - (j + 1)" using Suc.hyps(2) by simp
  from Suc.hyps(1) [OF this] lt
  have "scoreLoop suggestion isFile matches query_n (j + 1) (result + stepValue suggestion isFile matches j) =
          Some (result + stepValue suggestion isFile matches j +
                sum_list (map (stepValue suggestion isFile matches) [j + 1..<query_n]))"
    by simp
  moreover have "[j..<query_n] = j # [j + 1..<query_n]" using lt by (simp add: upt_conv_Cons)
  ultimately show ?case using lt step by (subst scoreLoop.simps) simp
qed

lemma isSubsequence_refl: "isSubsequence s s"
  by (induction s) auto

text \<open>Under its precondition \<^verbatim>\<open>scoreMatch\<close> reads inside \<^verbatim>\<open>matches\<close> and inside the suggestion:
  the score is defined.\<close>

lemma scoreMatch_defined:
  assumes "isSubsequence (to_lower_copy suggestion) (to_lower_copy query)"
  shows "\<exists>score. scoreMatch suggestion query isFile = Some score"
proof -
  let ?m = "subsequenceIndices (to_lower_copy suggestion) (to_lower_copy query)"
  have len: "length query \<le> length ?m"
    using subsequenceIndices_complete(1) [OF assms] by (simp add: to_lower_copy_def)
  have rng: "\<forall>p\<in>set ?m. p < length suggestion"
    using subsequenceIndices_complete(2) [OF assms] by (simp add: to_lower_copy_def)
  have "scoreLoop suggestion isFile ?m (length query) 0 0 =
          Some (0 + sum_list (map (stepValue suggestion isFile ?m) [0..<length query]))"
    by (rule scoreLoop_sum [OF len rng]) simp
  then show ?thesis by (simp add: scoreMatch_def Let_def)
qed

text \<open>
  Claim C6, amended. For a query that is a case-insensitive subsequence of the suggestion,
  \<^verbatim>\<open>scoreMatch\<close> returns the documented score: 0 for an exact match; otherwise the sum over
  the matched positions of the position itself, or of the query index plus one when the
  matched character follows a delimiter (underscore, hyphen, or a dot when the candidate is
  not a file), plus 3 per matched character when the extension is \<^verbatim>\<open>.rd\<close> in any case, plus 1
  for a file. In particular \<^verbatim>\<open>scoreMatch("foo", "foo")\<close> is 0.
\<close>

theorem scoreMatch_refines_documented:
  assumes "isSubsequence (to_lower_copy suggestion) (to_lower_copy query)"
  shows "scoreMatch suggestion query isFile = Some (scoreMatch_documented suggestion query isFile)
         \<and> scoreMatch ''foo'' ''foo'' isFile = Some 0"
proof -
  let ?m = "subsequenceIndices (to_lower_copy suggestion) (to_lower_copy query)"
  have len: "length query \<le> length ?m"
    using subsequenceIndices_complete(1) [OF assms] by (simp add: to_lower_copy_def)
  have rng: "\<forall>p\<in>set ?m. p < length suggestion"
    using subsequenceIndices_complete(2) [OF assms] by (simp add: to_lower_copy_def)
  have "scoreLoop suggestion isFile ?m (length query) 0 0 =
          Some (0 + sum_list (map (stepValue suggestion isFile ?m) [0..<length query]))"
    by (rule scoreLoop_sum [OF len rng]) simp
  moreover have "stepValue suggestion isFile ?m =
      (\<lambda>j. boundaryPosition isFile suggestion (\<lambda>j. int j + 1) j (?m ! j) +
           (if to_lower_copy (getExtension suggestion) = ''.rd'' then 3 else 0))"
    by (rule ext) (simp add: stepValue_def)
  ultimately have "scoreMatch suggestion query isFile =
      Some (scoreMatch_documented suggestion query isFile)"
    by (simp add: scoreMatch_def scoreMatch_documented_def positionalScore_def Let_def)
  moreover have "scoreMatch ''foo'' ''foo'' isFile = Some 0" by (simp add: scoreMatch_def)
  ultimately show ?thesis by simp
qed

theorem scoreMatch_refines_documented_witness:
  "isSubsequence (to_lower_copy ''get_Value.Rd'') (to_lower_copy ''gV'') \<and>
   scoreMatch ''get_Value.Rd'' ''gV'' True = Some 9 \<and>
   scoreMatch_documented ''get_Value.Rd'' ''gV'' True = 9"
proof -
  have h: "isSubsequence (to_lower_copy ''get_Value.Rd'') (to_lower_copy ''gV'')" by code_simp
  have v: "scoreMatch_documented ''get_Value.Rd'' ''gV'' True = 9" by code_simp
  from scoreMatch_refines_documented [OF h, of True] h v show ?thesis by simp
qed

text \<open>
  Claim C6 as stated takes the query index itself for a match after a delimiter. The code
  takes the query index plus one: for the suggestion \<^verbatim>\<open>a_b\<close> and the query \<^verbatim>\<open>b\<close> the single
  match follows an underscore and scores 1, not 0.
\<close>

theorem scoreMatch_query_index_counterexample:
  "isSubsequence (to_lower_copy ''a_b'') (to_lower_copy ''b'') \<and>
   scoreMatch ''a_b'' ''b'' False = Some 1 \<and>
   scoreMatch_as_claimed ''a_b'' ''b'' False = 0"
  by code_simp

section \<open>The entry store keeps one entry per file\<close>

lemma entryLess_path: "entryLess a b \<longleftrightarrow> entryPath a < entryPath b"
  by (simp add: entryLess_def fileInfoPathLessThan_def entryPath_def)

lemma sorted_paths_distinct: "sorted_wrt (<) (map entryPath es) \<Longrightarrow> distinct (map entryPath es)"
  using strict_sorted_iff by blast

lemma set_insert_props:
  "sorted_wrt (<) (map entryPath es) \<Longrightarrow> set_insert e es = (es', it, b) \<Longrightarrow>
   sorted_wrt (<) (map entryPath es') \<and> it < length es' \<and>
   entryPath (es' ! it) = entryPath e \<and>
   (b \<longrightarrow> set es' = insert e (set es)) \<and> (\<not> b \<longrightarrow> es' = es)"
proof (induction es arbitrary: es' it b)
  case Nil
  then show ?case by auto
next
  case (Cons x xs)
  consider (lt) "entryPath e < entryPath x" | (gt) "entryPath x < entryPath e"
    | (eq) "entryPath e = entryPath x" by fastforce
  then show ?case
  proof cases
    case lt
    then have "es' = e # x # xs" "it = 0" "b" using Cons.prems(2) by (auto simp: entryLess_path)
    then show ?thesis using Cons.prems(1) lt by auto
  next
    case gt
    obtain ys i c where r: "set_insert e xs = (ys, i, c)" by (cases "set_insert e xs") auto
    have ngt: "\<not> entryPath e < entryPath x" using gt by simp
    have res: "es' = x # ys" "it = Suc i" "b = c"
      using Cons.prems(2) gt ngt r by (auto simp: entryLess_path)
    have sx: "sorted_wrt (<) (map entryPath xs)" using Cons.prems(1) by simp
    from Cons.IH [OF sx r]
    have ih: "sorted_wrt (<) (map entryPath ys)" "i < length ys" "entryPath (ys ! i) = entryPath e"
      "c \<longrightarrow> set ys = insert e (set xs)" "\<not> c \<longrightarrow> ys = xs" by simp_all
    have "\<forall>y\<in>set ys. entryPath x < entryPath y"
      using ih(4,5) Cons.prems(1) gt by (cases c) auto
    then show ?thesis using res ih by auto
  next
    case eq
    then have "es' = x # xs" "it = 0" "\<not> b" using Cons.prems(2) by (auto simp: entryLess_path)
    then show ?thesis using Cons.prems(1) eq by auto
  qed
qed

lemma set_erase_props:
  assumes "sorted_wrt (<) (map entryPath es)"
  shows "sorted_wrt (<) (map entryPath (set_erase it es))"
    and "set (set_erase it es) \<subseteq> set es"
    and "it < length es \<Longrightarrow> \<forall>x\<in>set (set_erase it es). entryPath x \<noteq> entryPath (es ! it)"
proof -
  let ?ps = "map entryPath es"
  have "sorted_wrt (<) (take it ?ps @ drop it ?ps)" using assms by simp
  then have cross: "\<forall>x\<in>set (take it ?ps). \<forall>y\<in>set (drop it ?ps). x < y"
    and s1: "sorted_wrt (<) (take it ?ps)"
    unfolding sorted_wrt_append by simp_all
  have s2: "sorted_wrt (<) (drop (Suc it) ?ps)" using assms by (rule sorted_wrt_drop)
  have "set (drop (Suc it) ?ps) \<subseteq> set (drop it ?ps)" by (rule set_drop_subset_set_drop) simp
  then have "\<forall>x\<in>set (take it ?ps). \<forall>y\<in>set (drop (Suc it) ?ps). x < y" using cross by blast
  then have "sorted_wrt (<) (take it ?ps @ drop (Suc it) ?ps)"
    using s1 s2 unfolding sorted_wrt_append by simp
  then show "sorted_wrt (<) (map entryPath (set_erase it es))"
    by (simp add: set_erase_def take_map drop_map)
  show "set (set_erase it es) \<subseteq> set es"
    by (auto simp: set_erase_def dest: in_set_takeD in_set_dropD)
  show "\<forall>x\<in>set (set_erase it es). entryPath x \<noteq> entryPath (es ! it)" if lt: "it < length es"
  proof -
    have "distinct ?ps" using assms by (rule sorted_paths_distinct)
    moreover have "?ps = take it ?ps @ entryPath (es ! it) # drop (Suc it) ?ps"
      using lt by (metis id_take_nth_drop length_map nth_map)
    ultimately have "distinct (take it ?ps @ entryPath (es ! it) # drop (Suc it) ?ps)" by simp
    then have "entryPath (es ! it) \<notin> set (take it ?ps) \<union> set (drop (Suc it) ?ps)" by auto
    then have "entryPath (es ! it) \<notin> entryPath ` set (set_erase it es)"
      by (simp add: set_erase_def take_map drop_map image_Un)
    then show ?thesis by (metis imageI)
  qed
qed

lemma set_find_props:
  "set_find e es = Some it \<Longrightarrow> it < length es \<and> entryPath (es ! it) = entryPath e"
  "set_find e es = None \<Longrightarrow> \<forall>x\<in>set es. entryPath x \<noteq> entryPath e"
  by (induction es arbitrary: it) (auto simp: entryLess_path split: if_splits)

lemma filter_path_none:
  "\<forall>x\<in>set es. entryPath x \<noteq> p \<Longrightarrow> filter (\<lambda>e. entryPath e = p) es = []"
  by (induction es) auto

lemma filter_path_distinct_le1:
  "distinct (map entryPath es) \<Longrightarrow> length (filter (\<lambda>e. entryPath e = p) es) \<le> 1"
proof (induction es)
  case Nil
  then show ?case by simp
next
  case (Cons x xs)
  show ?case
  proof (cases "entryPath x = p")
    case True
    then have "\<forall>y\<in>set xs. entryPath y \<noteq> p" using Cons.prems by (auto simp: image_iff)
    then show ?thesis using True by (simp add: filter_path_none)
  next
    case False
    then show ?thesis using Cons by simp
  qed
qed

lemma filter_path_member:
  "distinct (map entryPath es) \<Longrightarrow> e \<in> set es \<Longrightarrow> filter (\<lambda>x. entryPath x = entryPath e) es = [e]"
proof (induction es)
  case Nil
  then show ?case by simp
next
  case (Cons x xs)
  show ?case
  proof (cases "x = e")
    case True
    then have "\<forall>y\<in>set xs. entryPath y \<noteq> entryPath e" using Cons.prems(1) by (auto simp: image_iff)
    then show ?thesis using True by (simp add: filter_path_none)
  next
    case False
    then have "e \<in> set xs" using Cons.prems(2) by simp
    moreover from this have "entryPath x \<noteq> entryPath e" using Cons.prems(1) by (auto simp: image_iff)
    ultimately show ?thesis using Cons by simp
  qed
qed

lemma upsert_props:
  assumes "sorted_wrt (<) (map entryPath es)"
  shows "sorted_wrt (<) (map entryPath (upsert entry es))"
    and "entry \<in> set (upsert entry es)"
proof -
  obtain es' it b where r: "set_insert entry es = (es', it, b)" by (cases "set_insert entry es") auto
  note p = set_insert_props [OF assms r]
  show "sorted_wrt (<) (map entryPath (upsert entry es))" "entry \<in> set (upsert entry es)"
  proof -
    have "sorted_wrt (<) (map entryPath (upsert entry es)) \<and> entry \<in> set (upsert entry es)"
    proof (cases b)
      case True
      then show ?thesis using p r by (simp add: upsert_def)
    next
      case False
      then have same: "es' = es" using p by simp
      let ?er = "set_erase it es"
      have lt: "it < length es" using p same by simp
      have se: "sorted_wrt (<) (map entryPath ?er)" by (rule set_erase_props(1) [OF assms])
      have ne: "\<forall>x\<in>set ?er. entryPath x \<noteq> entryPath entry"
        using set_erase_props(3) [OF assms lt] p same by simp
      obtain es2 it2 b2 where r2: "set_insert entry ?er = (es2, it2, b2)"
        by (cases "set_insert entry ?er") auto
      note p2 = set_insert_props [OF se r2]
      have "b2"
      proof (rule ccontr)
        assume "\<not> b2"
        then have "es2 = ?er" using p2 by simp
        then have "?er ! it2 \<in> set ?er" "entryPath (?er ! it2) = entryPath entry" using p2 by simp_all
        then show False using ne by blast
      qed
      then have "sorted_wrt (<) (map entryPath es2) \<and> entry \<in> set es2" using p2 by simp
      moreover have "upsert entry es = es2"
      proof (cases "it = 0")
        case True
        then show ?thesis using False r r2 by (simp add: upsert_def)
      next
        case nz: False
        then show ?thesis using False r r2 by (simp add: upsert_def set_insert_hint_def)
      qed
      ultimately show ?thesis by simp
    qed
    then show "sorted_wrt (<) (map entryPath (upsert entry es))" "entry \<in> set (upsert entry es)"
      by simp_all
  qed
qed

lemma updateIndexEntry_cases:
  "updateIndexEntry env fi s =
     (if isIndexableSourceFile env fi then
        (case readAndDecodeFile env (absolutePath fi) of
           Inl error \<Rightarrow>
             if isPathNotFoundError error then s
             else s\<lparr>errorLog := errorLog s @ [(error, absolutePath fi)]\<rparr>
         | Inr code \<Rightarrow>
             s\<lparr>entries := upsert \<lparr>fileInfo = fi,
                  pIndex = Some (newRSourceIndex env (createAliasedPath env (absolutePath fi)) code)\<rparr>
                  (entries s)\<rparr>)
      else s\<lparr>entries := upsert \<lparr>fileInfo = fi, pIndex = None\<rparr> (entries s)\<rparr>)"
  by (auto simp: updateIndexEntry_def upsert_def Let_def split: sum.splits prod.splits)

lemma updateIndexEntry_queue [simp]:
  "indexingQueue (updateIndexEntry env fi s) = indexingQueue s"
  by (simp add: updateIndexEntry_cases split: sum.splits)

lemma removeIndexEntry_queue [simp]:
  "indexingQueue (removeIndexEntry fi s) = indexingQueue s"
  by (simp add: removeIndexEntry_def split: option.splits)

lemma applyEvent_queue [simp]: "indexingQueue (applyEvent env ev s) = indexingQueue s"
  by (simp add: applyEvent_def split: FileChangeEventType.splits)

lemma updateIndexEntry_invariant:
  "storeInvariant s \<Longrightarrow> storeInvariant (updateIndexEntry env fi s)"
  by (auto simp: updateIndexEntry_cases storeInvariant_def upsert_props(1) split: sum.splits)

lemma removeIndexEntry_invariant:
  "storeInvariant s \<Longrightarrow> storeInvariant (removeIndexEntry fi s)"
  by (auto simp: removeIndexEntry_def storeInvariant_def set_erase_props(1) split: option.splits)

lemma removeIndexEntry_gone:
  assumes "storeInvariant s"
  shows "entriesFor (absolutePath fi) (removeIndexEntry fi s) = []"
proof -
  let ?e = "\<lparr>fileInfo = fi, pIndex = None\<rparr>"
  have srt: "sorted_wrt (<) (map entryPath (entries s))" using assms by (simp add: storeInvariant_def)
  have p: "entryPath ?e = absolutePath fi" by (simp add: entryPath_def)
  show ?thesis
  proof (cases "set_find ?e (entries s)")
    case None
    then have "\<forall>x\<in>set (entries s). entryPath x \<noteq> absolutePath fi"
      using set_find_props(2) [of ?e "entries s"] p by simp
    then show ?thesis using None by (simp add: removeIndexEntry_def entriesFor_def filter_path_none)
  next
    case (Some it)
    then have "it < length (entries s)" "entryPath (entries s ! it) = absolutePath fi"
      using set_find_props(1) [of ?e "entries s" it] p by simp_all
    then have "\<forall>x\<in>set (set_erase it (entries s)). entryPath x \<noteq> absolutePath fi"
      using set_erase_props(3) [OF srt, of it] by simp
    then show ?thesis using Some by (simp add: removeIndexEntry_def entriesFor_def filter_path_none)
  qed
qed

lemma applyEvent_invariant: "storeInvariant s \<Longrightarrow> storeInvariant (applyEvent env ev s)"
  by (simp add: applyEvent_def updateIndexEntry_invariant removeIndexEntry_invariant
           split: FileChangeEventType.splits)

lemma dequeAndIndex_Cons:
  assumes "indexingQueue s = ev # rest"
  shows "dequeAndIndex env s =
           ((applyEvent env ev (s\<lparr>indexingQueue := rest\<rparr>))\<lparr>indexing := (rest \<noteq> [])\<rparr>, rest \<noteq> [])"
  using assms
  by (cases "ev_type ev") (simp_all add: dequeAndIndex_def applyEvent_def Let_def)

lemma dequeAndIndex_Nil:
  assumes "indexingQueue s = []"
  shows "dequeAndIndex env s = (s\<lparr>indexing := False\<rparr>, False)"
  using assms by (simp add: dequeAndIndex_def Let_def)

lemma storeInvariant_update [simp]:
  "storeInvariant (s\<lparr>indexingQueue := q\<rparr>) = storeInvariant s"
  "storeInvariant (s\<lparr>indexing := b\<rparr>) = storeInvariant s"
  "storeInvariant (s\<lparr>errorLog := l\<rparr>) = storeInvariant s"
  by (simp_all add: storeInvariant_def)

lemma entriesFor_update [simp]:
  "entriesFor p (s\<lparr>indexingQueue := q\<rparr>) = entriesFor p s"
  "entriesFor p (s\<lparr>indexing := b\<rparr>) = entriesFor p s"
  "entriesFor p (s\<lparr>errorLog := l\<rparr>) = entriesFor p s"
  by (simp_all add: entriesFor_def)

lemma dequeAndIndex_invariant:
  "storeInvariant s \<Longrightarrow> storeInvariant (fst (dequeAndIndex env s))"
  by (cases "indexingQueue s")
     (simp_all add: dequeAndIndex_Nil dequeAndIndex_Cons applyEvent_invariant)

lemma storeInvariant_le1: "storeInvariant s \<Longrightarrow> length (entriesFor p s) \<le> 1"
  unfolding storeInvariant_def entriesFor_def
  by (rule filter_path_distinct_le1) (rule sorted_paths_distinct)

lemma drain_last_removed:
  "storeInvariant s \<Longrightarrow> indexingQueue s = q @ [ev] \<Longrightarrow> ev_type ev = FileRemoved \<Longrightarrow>
   entriesFor (absolutePath (ev_fileInfo ev)) (drain env s) = [] \<and>
   indexingQueue (drain env s) = [] \<and> \<not> indexing (drain env s) \<and> storeInvariant (drain env s)"
proof (induction q arbitrary: s)
  case Nil
  then have q: "indexingQueue s = [ev]" by simp
  have "drain env s = (removeIndexEntry (ev_fileInfo ev) (s\<lparr>indexingQueue := []\<rparr>))\<lparr>indexing := False\<rparr>"
    using Nil.prems(3) by (subst drain.simps) (simp add: dequeAndIndex_Cons [OF q] applyEvent_def)
  then show ?case
    using Nil.prems(1) by (simp add: removeIndexEntry_gone removeIndexEntry_invariant)
next
  case (Cons e q)
  then have qs: "indexingQueue s = e # (q @ [ev])" by simp
  let ?s' = "(applyEvent env e (s\<lparr>indexingQueue := q @ [ev]\<rparr>))\<lparr>indexing := True\<rparr>"
  have d: "drain env s = drain env ?s'"
    by (subst drain.simps) (simp add: dequeAndIndex_Cons [OF qs])
  have "storeInvariant ?s'" using Cons.prems(1) by (simp add: applyEvent_invariant)
  moreover have "indexingQueue ?s' = q @ [ev]" by simp
  ultimately show ?case using Cons.IH [of ?s'] Cons.prems(3) d by simp
qed

lemma runSteps_drain:
  "length (indexingQueue s) \<le> n \<Longrightarrow> 0 < n \<Longrightarrow> runSteps env n s = drain env s"
proof (induction n arbitrary: s)
  case 0
  then show ?case by simp
next
  case (Suc n)
  show ?case
  proof (cases "indexingQueue s")
    case Nil
    have idem: "runSteps env k (s\<lparr>indexing := False\<rparr>) = s\<lparr>indexing := False\<rparr>" for k
      using Nil by (induction k) (simp_all add: dequeAndIndex_Nil)
    show ?thesis using Nil by (subst drain.simps) (simp add: dequeAndIndex_Nil idem)
  next
    case (Cons ev rest)
    let ?s' = "(applyEvent env ev (s\<lparr>indexingQueue := rest\<rparr>))\<lparr>indexing := (rest \<noteq> [])\<rparr>"
    have q': "indexingQueue ?s' = rest" by simp
    show ?thesis
    proof (cases "rest = []")
      case True
      have idem: "runSteps env k ?s' = ?s'" for k
      proof (induction k)
        case 0
        then show ?case by simp
      next
        case (Suc k)
        have "fst (dequeAndIndex env ?s') = ?s'" using True by (simp add: dequeAndIndex_Nil)
        then show ?case using Suc by simp
      qed
      have "drain env s = ?s'" using True by (subst drain.simps) (simp add: dequeAndIndex_Cons [OF Cons])
      then show ?thesis using idem [of n] by (simp add: dequeAndIndex_Cons [OF Cons])
    next
      case False
      then have ln: "0 < length rest" by simp
      have le: "length rest \<le> n" using Suc.prems(1) Cons by simp
      have "length (indexingQueue ?s') \<le> n" using le by simp
      moreover have "0 < n" using ln le by linarith
      ultimately have "runSteps env n ?s' = drain env ?s'" by (rule Suc.IH)
      moreover have "drain env s = drain env ?s'"
        using False by (subst drain.simps) (simp add: dequeAndIndex_Cons [OF Cons])
      ultimately show ?thesis by (simp add: dequeAndIndex_Cons [OF Cons])
    qed
  qed
qed

section \<open>Draining the queue\<close>

text \<open>
  Claim C5. For a source file \<open>f\<close>, once \<^verbatim>\<open>Added(f)\<close>, \<^verbatim>\<open>Modified(f)\<close>, \<^verbatim>\<open>Removed(f)\<close> have been
  enqueued in that order behind whatever the queue already held, draining the queue (one
  event per background step, first in first out) ends with an empty queue and no entry
  for \<open>f\<close>; and any number of steps that is at least the length of the queue reaches that
  same state.
\<close>

theorem removed_last_leaves_no_entry:
  assumes "storeInvariant s" and "isSourceFile env f"
    and "s' = enqueFileChange env \<lparr>ev_type = FileRemoved, ev_fileInfo = f\<rparr>
               (enqueFileChange env \<lparr>ev_type = FileModified, ev_fileInfo = f\<rparr>
                 (enqueFileChange env \<lparr>ev_type = FileAdded, ev_fileInfo = f\<rparr> s))"
  shows "indexingQueue s' =
           indexingQueue s @ [\<lparr>ev_type = FileAdded, ev_fileInfo = f\<rparr>,
                              \<lparr>ev_type = FileModified, ev_fileInfo = f\<rparr>,
                              \<lparr>ev_type = FileRemoved, ev_fileInfo = f\<rparr>] \<and>
         entriesFor (absolutePath f) (drain env s') = [] \<and>
         indexingQueue (drain env s') = [] \<and>
         (\<forall>n. length (indexingQueue s') \<le> n \<longrightarrow> runSteps env n s' = drain env s')"
proof -
  let ?rm = "\<lparr>ev_type = FileRemoved, ev_fileInfo = f\<rparr>"
  let ?q = "indexingQueue s @ [\<lparr>ev_type = FileAdded, ev_fileInfo = f\<rparr>,
                               \<lparr>ev_type = FileModified, ev_fileInfo = f\<rparr>]"
  have q: "indexingQueue s' = ?q @ [?rm]"
    using assms(2,3) by (simp add: enqueFileChange_def)
  have inv: "storeInvariant s'"
    using assms(1,2,3) by (simp add: enqueFileChange_def storeInvariant_def)
  from drain_last_removed [OF inv q, of env]
  have "entriesFor (absolutePath f) (drain env s') = []" "indexingQueue (drain env s') = []"
    by simp_all
  moreover have "\<forall>n. length (indexingQueue s') \<le> n \<longrightarrow> runSteps env n s' = drain env s'"
  proof (intro allI impI)
    fix n assume "length (indexingQueue s') \<le> n"
    moreover from this have "0 < n" using q by simp
    ultimately show "runSteps env n s' = drain env s'" by (rule runSteps_drain)
  qed
  ultimately show ?thesis using q by simp
qed

theorem removed_last_leaves_no_entry_witness:
  "storeInvariant (drain exampleEnv (enqueFileChange exampleEnv (fileEvent FileAdded ''/p/run.R'') emptyState)) \<and>
   isSourceFile exampleEnv \<lparr>absolutePath = ''/p/run.R'', lastWriteTime = 7\<rparr> \<and>
   entriesFor ''/p/run.R'' (drain exampleEnv (enqueFileChange exampleEnv (fileEvent FileAdded ''/p/run.R'') emptyState)) \<noteq> [] \<and>
   entriesFor ''/p/run.R''
     (drain exampleEnv
       (enqueFileChange exampleEnv \<lparr>ev_type = FileRemoved, ev_fileInfo = \<lparr>absolutePath = ''/p/run.R'', lastWriteTime = 7\<rparr>\<rparr>
         (enqueFileChange exampleEnv \<lparr>ev_type = FileModified, ev_fileInfo = \<lparr>absolutePath = ''/p/run.R'', lastWriteTime = 7\<rparr>\<rparr>
           (enqueFileChange exampleEnv \<lparr>ev_type = FileAdded, ev_fileInfo = \<lparr>absolutePath = ''/p/run.R'', lastWriteTime = 7\<rparr>\<rparr>
             (drain exampleEnv (enqueFileChange exampleEnv (fileEvent FileAdded ''/p/run.R'') emptyState)))))) = []"
proof -
  let ?s = "drain exampleEnv (enqueFileChange exampleEnv (fileEvent FileAdded ''/p/run.R'') emptyState)"
  let ?f = "\<lparr>absolutePath = ''/p/run.R'', lastWriteTime = 7\<rparr>"
  have h1: "storeInvariant ?s" by code_simp
  have h2: "isSourceFile exampleEnv ?f" by code_simp
  have h3: "entriesFor ''/p/run.R'' ?s \<noteq> []" by code_simp
  from removed_last_leaves_no_entry [OF h1 h2 refl] h1 h2 h3 show ?thesis by simp
qed

section \<open>One entry per file\<close>

lemma updateIndexEntry_present:
  assumes "storeInvariant s"
    and "\<not> isIndexableSourceFile env fi \<or> \<not> isl (readAndDecodeFile env (absolutePath fi))"
  shows "length (entriesFor (absolutePath fi) (updateIndexEntry env fi s)) = 1"
proof -
  have srt: "sorted_wrt (<) (map entryPath (entries s))"
    using assms(1) by (simp add: storeInvariant_def)
  have one: "length (filter (\<lambda>x. entryPath x = absolutePath fi) (upsert \<lparr>fileInfo = fi, pIndex = pi\<rparr> (entries s))) = 1"
    for pi
  proof -
    let ?e = "\<lparr>fileInfo = fi, pIndex = pi\<rparr>"
    have "distinct (map entryPath (upsert ?e (entries s)))"
      using upsert_props(1) [OF srt] by (rule sorted_paths_distinct)
    from filter_path_member [OF this upsert_props(2) [OF srt]]
    show ?thesis by (simp add: entryPath_def)
  qed
  show ?thesis
  proof (cases "isIndexableSourceFile env fi")
    case False
    then show ?thesis by (simp add: updateIndexEntry_cases entriesFor_def one)
  next
    case True
    then obtain code where "readAndDecodeFile env (absolutePath fi) = Inr code"
      using assms(2) by (cases "readAndDecodeFile env (absolutePath fi)") auto
    then show ?thesis using True by (simp add: updateIndexEntry_cases entriesFor_def one)
  qed
qed

lemma clear_invariant: "storeInvariant (clear s)"
  by (simp add: clear_def storeInvariant_def)

lemma runSteps_two_added:
  "runSteps env 2 (s\<lparr>indexingQueue := \<lparr>ev_type = FileAdded, ev_fileInfo = fi\<rparr> #
                                         \<lparr>ev_type = FileAdded, ev_fileInfo = fi\<rparr> # rest\<rparr>) =
   (updateIndexEntry env fi
      ((updateIndexEntry env fi (s\<lparr>indexingQueue := \<lparr>ev_type = FileAdded, ev_fileInfo = fi\<rparr> # rest\<rparr>))
         \<lparr>indexing := True, indexingQueue := rest\<rparr>))\<lparr>indexing := (rest \<noteq> [])\<rparr>"
proof -
  let ?a = "\<lparr>ev_type = FileAdded, ev_fileInfo = fi\<rparr>"
  let ?s0 = "s\<lparr>indexingQueue := ?a # ?a # rest\<rparr>"
  let ?s1 = "(updateIndexEntry env fi (s\<lparr>indexingQueue := ?a # rest\<rparr>))\<lparr>indexing := True\<rparr>"
  have q0: "indexingQueue ?s0 = ?a # (?a # rest)" by simp
  have st1: "fst (dequeAndIndex env ?s0) = ?s1"
    by (simp add: dequeAndIndex_Cons [OF q0] applyEvent_def)
  have q1: "indexingQueue ?s1 = ?a # rest" by simp
  have st2: "fst (dequeAndIndex env ?s1) =
        (updateIndexEntry env fi (?s1\<lparr>indexingQueue := rest\<rparr>))\<lparr>indexing := (rest \<noteq> [])\<rparr>"
    by (simp add: dequeAndIndex_Cons [OF q1] applyEvent_def)
  have "runSteps env 2 ?s0 = fst (dequeAndIndex env (fst (dequeAndIndex env ?s0)))"
    by (simp add: numeral_2_eq_2)
  then show ?thesis using st1 st2 by simp
qed

text \<open>
  Claim C4, amended. The entry store holds at most one entry per file identity: the
  invariant is kept by \<^verbatim>\<open>updateIndexEntry\<close>, \<^verbatim>\<open>removeIndexEntry\<close>, \<^verbatim>\<open>clear\<close> and by every
  background step. Processing the same \<^verbatim>\<open>Added\<close> event twice in a row leaves at most one
  entry for the file, and exactly one when the file is not an indexable source file or
  its content can be read.
\<close>

theorem entry_store_one_entry_per_file:
  assumes "storeInvariant s"
  shows "storeInvariant (updateIndexEntry env fi s) \<and>
         storeInvariant (removeIndexEntry fi s) \<and>
         storeInvariant (clear s) \<and>
         storeInvariant (fst (dequeAndIndex env s)) \<and>
         length (entriesFor p s) \<le> 1 \<and>
         length (entriesFor (absolutePath fi)
                   (runSteps env 2 (s\<lparr>indexingQueue := \<lparr>ev_type = FileAdded, ev_fileInfo = fi\<rparr> #
                                             \<lparr>ev_type = FileAdded, ev_fileInfo = fi\<rparr> # rest\<rparr>))) \<le> 1 \<and>
         (\<not> isIndexableSourceFile env fi \<or> \<not> isl (readAndDecodeFile env (absolutePath fi)) \<longrightarrow>
          length (entriesFor (absolutePath fi)
                   (runSteps env 2 (s\<lparr>indexingQueue := \<lparr>ev_type = FileAdded, ev_fileInfo = fi\<rparr> #
                                             \<lparr>ev_type = FileAdded, ev_fileInfo = fi\<rparr> # rest\<rparr>))) = 1)"
proof -
  let ?a = "\<lparr>ev_type = FileAdded, ev_fileInfo = fi\<rparr>"
  let ?s1 = "(updateIndexEntry env fi (s\<lparr>indexingQueue := ?a # rest\<rparr>))\<lparr>indexing := True, indexingQueue := rest\<rparr>"
  have inv1: "storeInvariant ?s1" using assms by (simp add: updateIndexEntry_invariant)
  have inv2: "storeInvariant (updateIndexEntry env fi ?s1)"
    using inv1 by (rule updateIndexEntry_invariant)
  have le: "length (entriesFor (absolutePath fi) (runSteps env 2 (s\<lparr>indexingQueue := ?a # ?a # rest\<rparr>))) \<le> 1"
    using storeInvariant_le1 [OF inv2] by (simp add: runSteps_two_added)
  have eq: "length (entriesFor (absolutePath fi) (runSteps env 2 (s\<lparr>indexingQueue := ?a # ?a # rest\<rparr>))) = 1"
    if "\<not> isIndexableSourceFile env fi \<or> \<not> isl (readAndDecodeFile env (absolutePath fi))"
    using updateIndexEntry_present [OF inv1 that] by (simp add: runSteps_two_added)
  have imp: "\<not> isIndexableSourceFile env fi \<or> \<not> isl (readAndDecodeFile env (absolutePath fi)) \<longrightarrow>
      length (entriesFor (absolutePath fi) (runSteps env 2 (s\<lparr>indexingQueue := ?a # ?a # rest\<rparr>))) = 1"
    using eq by blast
  note inv = updateIndexEntry_invariant [OF assms, of env fi] removeIndexEntry_invariant [OF assms, of fi]
    clear_invariant [of s] dequeAndIndex_invariant [OF assms, of env] storeInvariant_le1 [OF assms, of p]
  from inv le imp show ?thesis by blast
qed

theorem entry_store_one_entry_per_file_witness:
  "storeInvariant emptyState \<and>
   \<not> isl (readAndDecodeFile exampleEnv (absolutePath \<lparr>absolutePath = ''/p/run.R'', lastWriteTime = 3\<rparr>)) \<and>
   length (entriesFor ''/p/run.R''
            (runSteps exampleEnv 2
               (emptyState\<lparr>indexingQueue := [\<lparr>ev_type = FileAdded, ev_fileInfo = \<lparr>absolutePath = ''/p/run.R'', lastWriteTime = 3\<rparr>\<rparr>,
                                              \<lparr>ev_type = FileAdded, ev_fileInfo = \<lparr>absolutePath = ''/p/run.R'', lastWriteTime = 3\<rparr>\<rparr>]\<rparr>))) = 1"
proof -
  have h1: "storeInvariant emptyState" by code_simp
  have h2: "\<not> isl (readAndDecodeFile exampleEnv (absolutePath \<lparr>absolutePath = ''/p/run.R'', lastWriteTime = 3\<rparr>))"
    by code_simp
  from entry_store_one_entry_per_file [OF h1, of exampleEnv "\<lparr>absolutePath = ''/p/run.R'', lastWriteTime = 3\<rparr>" _ "[]"]
    h1 h2
  show ?thesis by simp
qed

text \<open>
  Claim C4 as stated promises exactly one entry after the same \<^verbatim>\<open>Added\<close> event is processed
  twice. For an R file that has vanished before it is processed, \<^verbatim>\<open>updateIndexEntry\<close>
  returns before the insertion both times, and the store has no entry for it.
\<close>

theorem added_twice_counterexample:
  "storeInvariant emptyState \<and>
   isSourceFile exampleEnv \<lparr>absolutePath = ''/p/gone.R'', lastWriteTime = 0\<rparr> \<and>
   indexingQueue (enqueFileChange exampleEnv (fileEvent FileAdded ''/p/gone.R'')
                   (enqueFileChange exampleEnv (fileEvent FileAdded ''/p/gone.R'') emptyState)) =
     [fileEvent FileAdded ''/p/gone.R'', fileEvent FileAdded ''/p/gone.R''] \<and>
   length (entriesFor ''/p/gone.R''
            (drain exampleEnv
               (enqueFileChange exampleEnv (fileEvent FileAdded ''/p/gone.R'')
                 (enqueFileChange exampleEnv (fileEvent FileAdded ''/p/gone.R'') emptyState)))) = 0"
  by code_simp

section \<open>A file that cannot be read\<close>

text \<open>
  Claim C3, amended. When an \<^verbatim>\<open>Added\<close> or \<^verbatim>\<open>Modified\<close> event is processed for an indexable
  file and reading or decoding the file fails, the step returns as usual and leaves the
  entries as they were: no entry is inserted or replaced. A failure other than "path not
  found" is logged with the path of the file; "path not found" is not logged.
\<close>

theorem read_failure_leaves_store_unchanged:
  assumes "isIndexableSourceFile env (ev_fileInfo ev)"
    and "readAndDecodeFile env (absolutePath (ev_fileInfo ev)) = Inl error"
    and "ev_type ev = FileAdded \<or> ev_type ev = FileModified"
    and "indexingQueue s = ev # rest"
  shows "dequeAndIndex env s =
           (s\<lparr>indexingQueue := rest, indexing := (rest \<noteq> []),
              errorLog := (if isPathNotFoundError error then errorLog s
                           else errorLog s @ [(error, absolutePath (ev_fileInfo ev))])\<rparr>,
            rest \<noteq> []) \<and>
         entries (fst (dequeAndIndex env s)) = entries s"
  using assms(1,2,3)
  by (auto simp: dequeAndIndex_Cons [OF assms(4)] applyEvent_def updateIndexEntry_cases)

theorem read_failure_leaves_store_unchanged_witness:
  "isIndexableSourceFile exampleEnv (ev_fileInfo (fileEvent FileModified ''/p/bad.R'')) \<and>
   readAndDecodeFile exampleEnv (absolutePath (ev_fileInfo (fileEvent FileModified ''/p/bad.R''))) =
     Inl (OtherFailure ''invalid byte sequence'') \<and>
   dequeAndIndex exampleEnv (emptyState\<lparr>indexingQueue := [fileEvent FileModified ''/p/bad.R'']\<rparr>) =
     (emptyState\<lparr>errorLog := [(OtherFailure ''invalid byte sequence'', ''/p/bad.R'')]\<rparr>, False)"
proof -
  let ?ev = "fileEvent FileModified ''/p/bad.R''"
  have h1: "isIndexableSourceFile exampleEnv (ev_fileInfo ?ev)" by code_simp
  have h2: "readAndDecodeFile exampleEnv (absolutePath (ev_fileInfo ?ev)) =
              Inl (OtherFailure ''invalid byte sequence'')" by code_simp
  have h3: "ev_type ?ev = FileAdded \<or> ev_type ?ev = FileModified" by (simp add: fileEvent_def)
  have h4: "indexingQueue (emptyState\<lparr>indexingQueue := [?ev]\<rparr>) = ?ev # []" by simp
  from read_failure_leaves_store_unchanged [OF h1 h2 h3 h4] h1 h2
  show ?thesis by (simp add: isPathNotFoundError_def emptyState_def fileEvent_def)
qed

text \<open>
  Claim C3 as stated keeps the file in the entry store, without symbols, after a decode
  failure. The code returns before the insertion: after \<^verbatim>\<open>Added(/p/bad.R)\<close> is processed on
  an empty store, the store is still empty and a file-name search for \<^verbatim>\<open>bad\<close> finds nothing.
\<close>

theorem decode_failure_counterexample:
  "isIndexableSourceFile exampleEnv (ev_fileInfo (fileEvent FileAdded ''/p/bad.R'')) \<and>
   readAndDecodeFile exampleEnv ''/p/bad.R'' = Inl (OtherFailure ''invalid byte sequence'') \<and>
   entries (fst (dequeAndIndex exampleEnv
                   (enqueFileChange exampleEnv (fileEvent FileAdded ''/p/bad.R'') emptyState))) = [] \<and>
   fst (searchFiles exampleEnv
          (fst (dequeAndIndex exampleEnv
                  (enqueFileChange exampleEnv (fileEvent FileAdded ''/p/bad.R'') emptyState)))
          ''bad'' 100) = []"
  by code_simp

section \<open>The live document wins over the entry store\<close>


lemma searchSourceDatabaseLoop_props:
  "searchSourceDatabaseLoop env term mx po idxs pItems ctxs = (items, ctxs') \<Longrightarrow>
   ctxs \<subseteq> ctxs' \<and>
   (length items = mx \<or> (\<forall>d\<in>set idxs. sourceDatabaseFilter env d \<longrightarrow> idx_context d \<in> ctxs')) \<and>
   (length pItems \<le> mx \<longrightarrow> length items \<le> mx)"
proof (induction idxs arbitrary: pItems ctxs)
  case Nil
  then show ?case by auto
next
  case (Cons index rest)
  show ?case
  proof (cases "sourceDatabaseFilter env index")
    case False
    then have "searchSourceDatabaseLoop env term mx po rest pItems ctxs = (items, ctxs')"
      using Cons.prems by simp
    from Cons.IH [OF this] False show ?thesis by auto
  next
    case True
    let ?p = "pItems @ RSourceIndex_search env index term po False"
    let ?c = "insert (idx_context index) ctxs"
    show ?thesis
    proof (cases "length ?p \<ge> mx")
      case ge: True
      then have "items = take mx ?p" "ctxs' = ?c" using Cons.prems True by (simp_all add: Let_def)
      then show ?thesis using ge by auto
    next
      case lt: False
      then have "searchSourceDatabaseLoop env term mx po rest ?p ?c = (items, ctxs')"
        using Cons.prems True by (simp add: Let_def)
      from Cons.IH [OF this] lt show ?thesis by auto
    qed
  qed
qed






section \<open>The order of the results\<close>

lemma scoreFrom_props:
  "scoreFrom i0 ns term f = Some ps \<Longrightarrow>
   length ps = length ns \<and>
   (\<forall>p\<in>set ps. \<exists>i<length ns. fst p = int (i0 + i) \<and> scoreMatch (ns ! i) term f = Some (snd p))"
proof (induction ns arbitrary: i0 ps)
  case Nil
  then show ?case by simp
next
  case (Cons n ns)
  from Cons.prems obtain sc rest where sc: "scoreMatch n term f = Some sc"
    and rest: "scoreFrom (i0 + 1) ns term f = Some rest" and ps: "ps = (int i0, sc) # rest"
    by (auto split: option.splits)
  from Cons.IH [OF rest]
  have len: "length rest = length ns"
    and ih: "\<forall>p\<in>set rest. \<exists>i<length ns. fst p = int (i0 + 1 + i) \<and>
                 scoreMatch (ns ! i) term f = Some (snd p)" by simp_all
  have "\<exists>i<length (n # ns). fst p = int (i0 + i) \<and> scoreMatch ((n # ns) ! i) term f = Some (snd p)"
    if "p \<in> set ps" for p
  proof (cases "p = (int i0, sc)")
    case True
    then show ?thesis using sc by (intro exI [of _ 0]) simp
  next
    case False
    then have "p \<in> set rest" using that ps by simp
    then obtain i where "i < length ns" "fst p = int (i0 + 1 + i)"
      "scoreMatch (ns ! i) term f = Some (snd p)" using ih by blast
    then show ?thesis by (intro exI [of _ "Suc i"]) simp
  qed
  then show ?case using len ps by simp
qed

lemma scoreFrom_zero:
  assumes "scoreFrom 0 ns term f = Some ps" "p \<in> set ps"
  shows "nat (fst p) < length ns \<and> scoreMatch (ns ! nat (fst p)) term f = Some (snd p)"
  using scoreFrom_props [OF assms(1)] assms(2) by fastforce

lemma std_sort_set: "std_sort cmp xs ys \<Longrightarrow> set ys = set xs"
  by (metis std_sort_def set_mset_mset)

lemma filterScores_take:
  "filterScores s1 s2 K = (k1, k2) \<Longrightarrow> \<exists>c1 c2. k1 = take c1 s1 \<and> k2 = take c2 s2"
  by (auto simp: filterScores_def split: prod.splits)

lemma sorted_bucket:
  assumes sc: "scoreFrom 0 ns term f = Some ps" and so: "std_sort ScorePairComparator ps ys"
  shows "sorted_wrt (scoreLeq term f) (map (\<lambda>pair. ns ! nat (fst pair)) (take c ys))"
proof -
  have "sorted (map snd ys)" using so by (rule std_sort_sorted_scores)
  then have "sorted_wrt (\<lambda>a b. snd a \<le> snd b) ys" by (simp add: sorted_map)
  then have s: "sorted_wrt (\<lambda>a b. snd a \<le> snd b) (take c ys)" by (rule sorted_wrt_take)
  have mem: "scoreMatch (ns ! nat (fst p)) term f = Some (snd p)" if "p \<in> set (take c ys)" for p
  proof -
    have "p \<in> set ps" using that so by (metis in_set_takeD std_sort_set)
    then show ?thesis using scoreFrom_zero [OF sc] by blast
  qed
  have "sorted_wrt (\<lambda>a b. scoreLeq term f (ns ! nat (fst a)) (ns ! nat (fst b))) (take c ys)"
    by (rule sorted_wrt_mono_rel [OF _ s]) (simp add: scoreLeq_def mem)
  then show ?thesis by (simp add: sorted_wrt_map)
qed

lemma bucket_subset:
  assumes sc: "scoreFrom 0 (map g xs) term f = Some ps" and so: "std_sort ScorePairComparator ps ys"
  shows "set (map (\<lambda>pair. xs ! nat (fst pair)) (take c ys)) \<subseteq> set xs"
proof
  fix x assume "x \<in> set (map (\<lambda>pair. xs ! nat (fst pair)) (take c ys))"
  then obtain p where p: "p \<in> set (take c ys)" "x = xs ! nat (fst p)" by auto
  then have "p \<in> set ps" using so by (metis in_set_takeD std_sort_set)
  then have "nat (fst p) < length xs" using scoreFrom_zero [OF sc] by fastforce
  then show "x \<in> set xs" using p by simp
qed

text \<open>
  Claim C7, amended. In every \<^verbatim>\<open>search_code\<close> response each bucket (files; symbols) is in
  ascending order of fuzzy score. The order among candidates of equal score is whatever
  \<^verbatim>\<open>std::sort\<close> leaves: the code does not fix it.
\<close>

theorem buckets_ascending_by_score:
  assumes "searchCode env s term maxResults r"
  shows "sorted_wrt (scoreLeq term True) (file_names r) \<and>
         sorted_wrt (scoreLeq term False) (map si_name (source_items r))"
  using assms
proof (cases rule: searchCode.cases)
  case (searchCodeI names paths moreFiles srcItems fileScores fileScoresSorted srcItemScores
        srcItemScoresSorted)
  obtain k1 k2 where fs: "filterScores fileScoresSorted srcItemScoresSorted (int maxResults) = (k1, k2)"
    by (cases "filterScores fileScoresSorted srcItemScoresSorted (int maxResults)") auto
  from filterScores_take [OF fs] obtain c1 c2 where
    k: "k1 = take c1 fileScoresSorted" "k2 = take c2 srcItemScoresSorted" by blast
  have r1: "file_names r = map (\<lambda>pair. names ! nat (fst pair)) (take c1 fileScoresSorted)"
    using searchCodeI(1) fs k by (simp add: buildResult_def)
  have r2: "source_items r = map (\<lambda>pair. srcItems ! nat (fst pair)) (take c2 srcItemScoresSorted)"
    using searchCodeI(1) fs k by (simp add: buildResult_def)
  have a: "sorted_wrt (scoreLeq term True) (file_names r)"
    unfolding r1 by (rule sorted_bucket [OF searchCodeI(4,5)])
  have idx: "nat (fst p) < length srcItems" if "p \<in> set (take c2 srcItemScoresSorted)" for p
  proof -
    have "p \<in> set srcItemScores" using that searchCodeI(7) by (metis in_set_takeD std_sort_set)
    then show ?thesis using scoreFrom_zero [OF searchCodeI(6)] by fastforce
  qed
  have "map si_name (source_items r) =
          map (\<lambda>pair. map si_name srcItems ! nat (fst pair)) (take c2 srcItemScoresSorted)"
    unfolding r2 using idx by simp
  moreover have "sorted_wrt (scoreLeq term False)
          (map (\<lambda>pair. map si_name srcItems ! nat (fst pair)) (take c2 srcItemScoresSorted))"
    by (rule sorted_bucket [OF searchCodeI(6,7)])
  ultimately show ?thesis using a by simp
qed

theorem buckets_ascending_by_score_witness:
  "fst (collectFiles exampleEnv orderState ''b'') = [''ab.h'', ''b.h''] \<and>
   scoreMatch ''ab.h'' ''b'' True = Some 2 \<and> scoreMatch ''b.h'' ''b'' True = Some 1 \<and>
   searchCode exampleEnv orderState ''b'' 20
     \<lparr>file_names = [''b.h'', ''ab.h''], file_paths = [''/p/b.h'', ''/p/ab.h''],
      source_items = [], more_available = False\<rparr> \<and>
   sorted_wrt (scoreLeq ''b'' True) [''b.h'', ''ab.h'']"
proof -
  have c: "collectFiles exampleEnv orderState ''b'' = ([''ab.h'', ''b.h''], [''/p/ab.h'', ''/p/b.h''], False)"
    by code_simp
  have i: "collectSourceItems exampleEnv orderState ''b'' = []" by code_simp
  have f: "scoreFrom 0 [''ab.h'', ''b.h''] ''b'' True = Some [(0, 2), (1, 1)]" by code_simp
  have g: "scoreFrom 0 (map si_name []) ''b'' False = Some []" by simp
  have so: "std_sort ScorePairComparator [(0, 2), (1, 1)] [(1, 1), (0, 2 :: int)]"
    by (simp add: std_sort_def ScorePairComparator_def add_mset_commute)
  have so2: "std_sort ScorePairComparator [] ([] :: PairIntInt list)" by (simp add: std_sort_def)
  have b: "buildResult [''ab.h'', ''b.h''] [''/p/ab.h'', ''/p/b.h''] [] [(1, 1), (0, 2)] [] 20 =
      \<lparr>file_names = [''b.h'', ''ab.h''], file_paths = [''/p/b.h'', ''/p/ab.h''],
       source_items = [], more_available = False\<rparr>"
    by code_simp
  have h: "searchCode exampleEnv orderState ''b'' 20
     \<lparr>file_names = [''b.h'', ''ab.h''], file_paths = [''/p/b.h'', ''/p/ab.h''],
      source_items = [], more_available = False\<rparr>"
    using searchCodeI [OF c i f so g so2, of 20] b by simp
  have s1: "scoreMatch ''ab.h'' ''b'' True = Some 2" by code_simp
  have s2: "scoreMatch ''b.h'' ''b'' True = Some 1" by code_simp
  from buckets_ascending_by_score [OF h] h c s1 s2 show ?thesis by simp
qed

text \<open>
  Claim C7 as stated also puts candidates of equal score in their scan order. The
  seventeen files \<^verbatim>\<open>aa.h\<close> to \<^verbatim>\<open>aq.h\<close> are scanned in this order and all score 1 for the
  term \<^verbatim>\<open>a\<close>. The response below is the one the introsort of the GNU C++ library gives
  for seventeen elements that compare equal: above sixteen elements it swaps the first
  element with the middle one and then partitions by swapping pairwise from both ends
  (positions 1 and 16, 2 and 15, up to 8 and 9), and the insertion sort that finishes
  moves nothing; the candidates scanned as 0, 1, ..., 16 come out as
  8, 16, 15, 14, 13, 12, 11, 10, 9, 0, 7, 6, 5, 4, 3, 2, 1.
\<close>

theorem ties_not_in_scan_order_counterexample:
  "fst (collectFiles exampleEnv tieState ''a'') =
     [''aa.h'', ''ab.h'', ''ac.h'', ''ad.h'',
      ''ae.h'', ''af.h'', ''ag.h'', ''ah.h'',
      ''ai.h'', ''aj.h'', ''ak.h'', ''al.h'',
      ''am.h'', ''an.h'', ''ao.h'', ''ap.h'',
      ''aq.h''] \<and>
   scoreFrom 0
     [''aa.h'', ''ab.h'', ''ac.h'', ''ad.h'',
      ''ae.h'', ''af.h'', ''ag.h'', ''ah.h'',
      ''ai.h'', ''aj.h'', ''ak.h'', ''al.h'',
      ''am.h'', ''an.h'', ''ao.h'', ''ap.h'',
      ''aq.h''] ''a'' True =
     Some [(0, 1), (1, 1), (2, 1), (3, 1), (4, 1), (5, 1),
           (6, 1), (7, 1), (8, 1), (9, 1), (10, 1), (11, 1),
           (12, 1), (13, 1), (14, 1), (15, 1), (16, 1)] \<and>
   searchCode exampleEnv tieState ''a'' 20
     \<lparr>file_names =
        [''ai.h'', ''aq.h'', ''ap.h'', ''ao.h'',
         ''an.h'', ''am.h'', ''al.h'', ''ak.h'',
         ''aj.h'', ''aa.h'', ''ah.h'', ''ag.h'',
         ''af.h'', ''ae.h'', ''ad.h'', ''ac.h'',
         ''ab.h''],
      file_paths =
        [''/p/ai.h'', ''/p/aq.h'', ''/p/ap.h'', ''/p/ao.h'',
         ''/p/an.h'', ''/p/am.h'', ''/p/al.h'', ''/p/ak.h'',
         ''/p/aj.h'', ''/p/aa.h'', ''/p/ah.h'', ''/p/ag.h'',
         ''/p/af.h'', ''/p/ae.h'', ''/p/ad.h'', ''/p/ac.h'',
         ''/p/ab.h''],
      source_items = [], more_available = False\<rparr>"
proof -
  let ?names = "[''aa.h'', ''ab.h'', ''ac.h'', ''ad.h'',
                ''ae.h'', ''af.h'', ''ag.h'', ''ah.h'',
                ''ai.h'', ''aj.h'', ''ak.h'', ''al.h'',
                ''am.h'', ''an.h'', ''ao.h'', ''ap.h'',
                ''aq.h'']"
  let ?paths = "[''/p/aa.h'', ''/p/ab.h'', ''/p/ac.h'', ''/p/ad.h'',
                ''/p/ae.h'', ''/p/af.h'', ''/p/ag.h'', ''/p/ah.h'',
                ''/p/ai.h'', ''/p/aj.h'', ''/p/ak.h'', ''/p/al.h'',
                ''/p/am.h'', ''/p/an.h'', ''/p/ao.h'', ''/p/ap.h'',
                ''/p/aq.h'']"
  let ?scores = "[(0, 1), (1, 1), (2, 1), (3, 1), (4, 1), (5, 1),
                 (6, 1), (7, 1), (8, 1), (9, 1), (10, 1), (11, 1),
                 (12, 1), (13, 1), (14, 1), (15, 1), (16, 1)] :: PairIntInt list"
  let ?sorted = "[(8, 1), (16, 1), (15, 1), (14, 1), (13, 1), (12, 1),
                 (11, 1), (10, 1), (9, 1), (0, 1), (7, 1), (6, 1),
                 (5, 1), (4, 1), (3, 1), (2, 1), (1, 1)] :: PairIntInt list"
  have c: "collectFiles exampleEnv tieState ''a'' = (?names, ?paths, False)" by code_simp
  have i: "collectSourceItems exampleEnv tieState ''a'' = []" by code_simp
  have f: "scoreFrom 0 ?names ''a'' True = Some ?scores" by code_simp
  have g: "scoreFrom 0 (map si_name []) ''a'' False = Some []" by simp
  have perm: "mset ?sorted = mset ?scores" by code_simp
  have asc: "sorted_wrt (\<lambda>a b. \<not> ScorePairComparator b a) ?sorted" by code_simp
  have so: "std_sort ScorePairComparator ?scores ?sorted"
    unfolding std_sort_def using perm asc by blast
  have so2: "std_sort ScorePairComparator [] ([] :: PairIntInt list)" by (simp add: std_sort_def)
  have b: "buildResult ?names ?paths [] ?sorted [] 20 =
      \<lparr>file_names =
         [''ai.h'', ''aq.h'', ''ap.h'', ''ao.h'',
          ''an.h'', ''am.h'', ''al.h'', ''ak.h'',
          ''aj.h'', ''aa.h'', ''ah.h'', ''ag.h'',
          ''af.h'', ''ae.h'', ''ad.h'', ''ac.h'',
          ''ab.h''],
       file_paths =
         [''/p/ai.h'', ''/p/aq.h'', ''/p/ap.h'', ''/p/ao.h'',
          ''/p/an.h'', ''/p/am.h'', ''/p/al.h'', ''/p/ak.h'',
          ''/p/aj.h'', ''/p/aa.h'', ''/p/ah.h'', ''/p/ag.h'',
          ''/p/af.h'', ''/p/ae.h'', ''/p/ad.h'', ''/p/ac.h'',
          ''/p/ab.h''],
       source_items = [], more_available = False\<rparr>"
    by code_simp
  from searchCodeI [OF c i f so g so2, of 20] b c f show ?thesis by simp
qed

section \<open>The collection cap and the flag\<close>

lemma addProjectItems_length:
  "length pItems \<le> mx \<Longrightarrow> length (fst (addProjectItems mx proj pItems m)) \<le> mx"
  by (induction proj arbitrary: pItems) (auto simp: Let_def)

lemma searchSourceDatabase_length:
  "length (fst (searchSourceDatabase env s term mx po)) \<le> mx"
proof -
  obtain items ctxs where
    r: "searchSourceDatabaseLoop env term mx po (indexes s) [] {} = (items, ctxs)"
    by (cases "searchSourceDatabaseLoop env term mx po (indexes s) [] {}") auto
  from searchSourceDatabaseLoop_props [OF r] show ?thesis
    by (simp add: searchSourceDatabase_def r)
qed

lemma searchSource_length: "length (fst (searchSource env s term mx po)) \<le> mx"
proof -
  obtain pItems ctxs where db: "searchSourceDatabase env s term mx po = (pItems, ctxs)"
    by (cases "searchSourceDatabase env s term mx po") auto
  have le: "length pItems \<le> mx" using searchSourceDatabase_length [of env s "term" mx po] db by simp
  show ?thesis using le by (simp add: searchSource_def db Let_def addProjectItems_length)
qed

lemma SourceFileIndex_searchFilesLoop_length:
  "length names \<le> mx \<Longrightarrow>
   length (fst (SourceFileIndex_searchFilesLoop env term mx po es names paths m)) \<le> mx"
  by (induction es arbitrary: names paths m) (auto simp: Let_def enforceMaxResults_def)

lemma searchSourceDatabaseFilesLoop_length:
  "length names \<le> mx \<Longrightarrow>
   length (fst (searchSourceDatabaseFilesLoop env term mx idxs names paths m)) \<le> mx"
  by (induction idxs arbitrary: names paths m) (auto simp: Let_def enforceMaxResults_def)

lemma searchFiles_length: "length (fst (searchFiles env s term mx)) \<le> mx"
  by (simp add: searchFiles_def SourceFileIndex_searchFiles_def searchSourceDatabaseFiles_def
        SourceFileIndex_searchFilesLoop_length searchSourceDatabaseFilesLoop_length)

lemma more_available_iff:
  assumes "sorted (map snd fs)" "sorted (map snd ss)"
  shows "more_available (buildResult names paths srcItems fs ss K) \<longleftrightarrow> K < length fs + length ss"
proof -
  obtain d1 d2 where loop: "filterLoop K fs ss 0 0 = (d1, d2)"
    by (cases "filterLoop K fs ss 0 0") auto
  from filterLoop_start [OF assms loop]
  have ok: "cut_ok fs ss d1 d2" and total: "d1 + d2 = min K (length fs + length ss)" by simp_all
  have bnd: "d1 \<le> length fs" "d2 \<le> length ss" using ok by (simp_all add: cut_ok_def)
  have "more_available (buildResult names paths srcItems fs ss K) \<longleftrightarrow>
          d1 < length fs \<or> d2 < length ss"
    using bnd by (simp add: buildResult_def filterScores_def loop)
  then show ?thesis using bnd total by auto
qed

text \<open>
  Claim C10, amended. For every \<^verbatim>\<open>search_code\<close> request, at most 100 file candidates and at
  most 100 R symbol candidates are collected before scoring, whatever \<open>maxResults\<close> is; the
  symbol candidates are these R items followed by every definition that
  \<^verbatim>\<open>clang::searchDefinitions\<close> returns, which \<^verbatim>\<open>searchCode\<close> does not cap. The response's
  \<open>more_available\<close> flag depends only on whether the bounded merge dropped candidates (it
  holds exactly when \<open>maxResults\<close> is less than the number of collected candidates); the
  truncation flags of the collection phase do not enter, so the flag can be false when
  more than 100 matches exist.
\<close>

theorem collection_cap_and_more_available:
  "length (fst (collectFiles env s term)) \<le> 100 \<and>
   length (fst (collectRSourceItems env s term)) \<le> 100 \<and>
   length (collectSourceItems env s term) =
     length (fst (collectRSourceItems env s term)) + length (searchDefinitions env term) \<and>
   (searchCode env s term maxResults r \<longrightarrow>
      (more_available r \<longleftrightarrow>
         maxResults < length (fst (collectFiles env s term)) + length (collectSourceItems env s term)))"
proof -
  have a: "length (fst (collectFiles env s term)) \<le> 100"
    by (simp add: collectFiles_def searchFiles_length)
  have b: "length (fst (collectRSourceItems env s term)) \<le> 100"
    by (simp add: collectRSourceItems_def searchSource_length)
  have c: "length (collectSourceItems env s term) =
             length (fst (collectRSourceItems env s term)) + length (searchDefinitions env term)"
    by (simp add: collectSourceItems_def)
  have d: "more_available r \<longleftrightarrow>
             maxResults < length (fst (collectFiles env s term)) + length (collectSourceItems env s term)"
    if "searchCode env s term maxResults r"
    using that
  proof (cases rule: searchCode.cases)
    case (searchCodeI names paths moreFiles srcItems fileScores fileScoresSorted srcItemScores
          srcItemScoresSorted)
    have l1: "length fileScoresSorted = length names"
      using std_sort_length [OF searchCodeI(5)] scoreFrom_props [OF searchCodeI(4)] by simp
    have l2: "length srcItemScoresSorted = length srcItems"
      using std_sort_length [OF searchCodeI(7)] scoreFrom_props [OF searchCodeI(6)] by simp
    have "more_available r \<longleftrightarrow> maxResults < length fileScoresSorted + length srcItemScoresSorted"
      unfolding searchCodeI(1)
      by (rule more_available_iff [OF std_sort_sorted_scores [OF searchCodeI(5)]
                                      std_sort_sorted_scores [OF searchCodeI(7)]])
    then show ?thesis using l1 l2 searchCodeI(2,3) by simp
  qed
  from a b c d show ?thesis by blast
qed

lemma big_outcome:
  "searchCode exampleEnv bigState ''f'' 200
     (buildResult [] [] (collectSourceItems exampleEnv bigState ''f'') []
        (map (\<lambda>i. (int i, 0)) [0..<100]) 200)"
proof -
  have c: "collectFiles exampleEnv bigState ''f'' = ([], [], False)" by code_simp
  have f: "scoreFrom 0 [] ''f'' True = Some []" by simp
  have g: "scoreFrom 0 (map si_name (collectSourceItems exampleEnv bigState ''f'')) ''f'' False =
             Some (map (\<lambda>i. (int i, 0)) [0..<100])" by code_simp
  have so: "std_sort ScorePairComparator [] ([] :: PairIntInt list)" by (simp add: std_sort_def)
  have "sorted_wrt (\<lambda>a b. \<not> ScorePairComparator b a) (map (\<lambda>i. (int i, 0::int)) [0..<100])"
    by code_simp
  then have so2: "std_sort ScorePairComparator (map (\<lambda>i. (int i, 0)) [0..<100])
                    (map (\<lambda>i. (int i, 0::int)) [0..<100])"
    by (simp add: std_sort_def)
  from searchCodeI [OF c refl f so g so2, of 200] show ?thesis .
qed

theorem collection_cap_and_more_available_witness:
  "length (filter (\<lambda>item. nameMatches exampleEnv ''f'' False False (r_name item))
             (replicate 101 (exampleItem ''f''))) = 101 \<and>
   length (collectSourceItems exampleEnv bigState ''f'') = 100 \<and>
   searchCode exampleEnv bigState ''f'' 200
     (buildResult [] [] (collectSourceItems exampleEnv bigState ''f'') []
        (map (\<lambda>i. (int i, 0)) [0..<100]) 200) \<and>
   \<not> more_available
       (buildResult [] [] (collectSourceItems exampleEnv bigState ''f'') []
          (map (\<lambda>i. (int i, 0)) [0..<100]) 200)"
proof -
  have m: "length (filter (\<lambda>item. nameMatches exampleEnv ''f'' False False (r_name item))
             (replicate 101 (exampleItem ''f''))) = 101" by code_simp
  have n: "length (collectSourceItems exampleEnv bigState ''f'') = 100" by code_simp
  have c: "length (fst (collectFiles exampleEnv bigState ''f'')) = 0" by code_simp
  from collection_cap_and_more_available [of exampleEnv bigState "''f''" 200] big_outcome m n c
  show ?thesis by simp
qed

text \<open>
  Claim C10 as stated bounds the symbol candidates by 100. With 100 R items collected and
  one C++ definition returned, 101 symbol candidates are scored.
\<close>

theorem symbol_candidates_cap_counterexample:
  "length (fst (collectRSourceItems cppEnv bigState ''f'')) = 100 \<and>
   length (searchDefinitions cppEnv ''f'') = 1 \<and>
   length (collectSourceItems cppEnv bigState ''f'') = 101"
  by code_simp

section \<open>Disabling the file monitor\<close>

lemma clear_fields [simp]:
  "entries (clear s) = []" "indexingQueue (clear s) = []" "indexing (clear s) = False"
  "indexes (clear s) = indexes s"
  by (simp_all add: clear_def indexes_def)

lemma searchSource_empty_store:
  assumes "entries s' = []" "indexes s' = indexes s"
  shows "fst (searchSource env s' term mx po) = fst (searchSourceDatabase env s term mx po)"
proof -
  have same: "searchSourceDatabase env s' term mx po = searchSourceDatabase env s term mx po"
    using assms(2) by (simp add: searchSourceDatabase_def)
  obtain pItems ctxs where db: "searchSourceDatabase env s term mx po = (pItems, ctxs)"
    by (cases "searchSourceDatabase env s term mx po") auto
  have le: "length pItems \<le> mx" using searchSourceDatabase_length [of env s "term" mx po] db by simp
  show ?thesis using le assms(1) by (simp add: searchSource_def same db Let_def)
qed

lemma collectSourceItems_cleared:
  "collectSourceItems env (clear s) term =
     map fromRSourceItem (fst (searchSourceDatabase env s term 100 False)) @
     map (fromCppDefinition env) (searchDefinitions env term)"
  by (simp add: collectSourceItems_def collectRSourceItems_def
        searchSource_empty_store [of "clear s" s])

lemma collectFiles_cleared:
  "collectFiles env (clear s) term =
     (if hasFileMonitor env then ([], [], False) else searchSourceDatabaseFiles env s term 100)"
  by (simp add: collectFiles_def searchFiles_def SourceFileIndex_searchFiles_def
        searchSourceDatabaseFiles_def)

lemma response_from_candidates:
  assumes "searchCode env s term maxResults r"
  shows "set (file_names r) \<subseteq> set (fst (collectFiles env s term)) \<and>
         set (source_items r) \<subseteq> set (collectSourceItems env s term) \<and>
         (fst (collectFiles env s term) = [] \<longrightarrow> file_paths r = [])"
  using assms
proof (cases rule: searchCode.cases)
  case (searchCodeI names paths moreFiles srcItems fileScores fileScoresSorted srcItemScores
        srcItemScoresSorted)
  obtain k1 k2 where fs: "filterScores fileScoresSorted srcItemScoresSorted (int maxResults) = (k1, k2)"
    by (cases "filterScores fileScoresSorted srcItemScoresSorted (int maxResults)") auto
  from filterScores_take [OF fs] obtain c1 c2 where
    k: "k1 = take c1 fileScoresSorted" "k2 = take c2 srcItemScoresSorted" by blast
  have r1: "file_names r = map (\<lambda>pair. names ! nat (fst pair)) (take c1 fileScoresSorted)"
    and r2: "source_items r = map (\<lambda>pair. srcItems ! nat (fst pair)) (take c2 srcItemScoresSorted)"
    and r3: "file_paths r = map (\<lambda>pair. paths ! nat (fst pair)) (take c1 fileScoresSorted)"
    using searchCodeI(1) fs k by (simp_all add: buildResult_def)
  have f0: "scoreFrom 0 (map (\<lambda>x. x) names) term True = Some fileScores"
    using searchCodeI(4) by simp
  have a: "set (file_names r) \<subseteq> set names"
    unfolding r1 by (rule bucket_subset [OF f0 searchCodeI(5)])
  have b: "set (source_items r) \<subseteq> set srcItems"
    unfolding r2 by (rule bucket_subset [OF searchCodeI(6,7)])
  have c: "file_paths r = []" if "names = []"
  proof -
    have "fileScores = []" using that searchCodeI(4) by simp
    then have "fileScoresSorted = []" using std_sort_length [OF searchCodeI(5)] by simp
    then show ?thesis using r3 by simp
  qed
  from a b c show ?thesis using searchCodeI(2,3) by simp
qed

lemma no_live_documents:
  assumes "indexes s = []"
  shows "searchSourceDatabase env s term mx po = ([], {})"
    and "searchSourceDatabaseFiles env s term mx = ([], [], False)"
  using assms by (simp_all add: searchSourceDatabase_def searchSourceDatabaseFiles_def)

text \<open>
  Claim C8, amended. Disabling tree monitoring drops every entry of the entry store and
  every queued event and resets the indexing flag, whatever the state was. A query issued
  right after it takes nothing from the entry store: its file candidates are none when the
  project still reports a file monitor and the live documents' files otherwise, its
  symbol candidates are those of the live documents and of the C++ definition index, and
  every result is one of these candidates. Both buckets are empty when no document is open
  and no C++ definition matches.
\<close>

theorem monitoring_disabled_drops_store:
  "entries (onFileMonitorDisabled s) = [] \<and>
   indexingQueue (onFileMonitorDisabled s) = [] \<and>
   \<not> indexing (onFileMonitorDisabled s) \<and>
   collectFiles env (onFileMonitorDisabled s) term =
     (if hasFileMonitor env then ([], [], False) else searchSourceDatabaseFiles env s term 100) \<and>
   collectSourceItems env (onFileMonitorDisabled s) term =
     map fromRSourceItem (fst (searchSourceDatabase env s term 100 False)) @
     map (fromCppDefinition env) (searchDefinitions env term) \<and>
   (searchCode env (onFileMonitorDisabled s) term maxResults r \<longrightarrow>
      set (file_names r) \<subseteq> set (fst (collectFiles env (onFileMonitorDisabled s) term)) \<and>
      set (source_items r) \<subseteq> set (collectSourceItems env (onFileMonitorDisabled s) term) \<and>
      (indexes s = [] \<and> searchDefinitions env term = [] \<longrightarrow>
         file_names r = [] \<and> file_paths r = [] \<and> source_items r = []))"
proof -
  let ?s = "onFileMonitorDisabled s"
  have cf: "collectFiles env ?s term =
      (if hasFileMonitor env then ([], [], False) else searchSourceDatabaseFiles env s term 100)"
    by (simp add: onFileMonitorDisabled_def collectFiles_cleared)
  have cs: "collectSourceItems env ?s term =
      map fromRSourceItem (fst (searchSourceDatabase env s term 100 False)) @
      map (fromCppDefinition env) (searchDefinitions env term)"
    by (simp add: onFileMonitorDisabled_def collectSourceItems_cleared)
  have resp: "set (file_names r) \<subseteq> set (fst (collectFiles env ?s term)) \<and>
      set (source_items r) \<subseteq> set (collectSourceItems env ?s term) \<and>
      (indexes s = [] \<and> searchDefinitions env term = [] \<longrightarrow>
         file_names r = [] \<and> file_paths r = [] \<and> source_items r = [])"
    if h: "searchCode env ?s term maxResults r"
  proof -
    note sub = response_from_candidates [OF h]
    have "file_names r = [] \<and> file_paths r = [] \<and> source_items r = []"
      if e: "indexes s = []" "searchDefinitions env term = []"
    proof -
      have "fst (collectFiles env ?s term) = []" using cf e by (simp add: no_live_documents)
      moreover have "collectSourceItems env ?s term = []" using cs e by (simp add: no_live_documents)
      ultimately show ?thesis using sub by simp
    qed
    then show ?thesis using sub by blast
  qed
  have "entries ?s = []" "indexingQueue ?s = []" "\<not> indexing ?s"
    by (simp_all add: onFileMonitorDisabled_def)
  with cf cs resp show ?thesis by blast
qed

theorem monitoring_disabled_drops_store_witness:
  "entries indexedState \<noteq> [] \<and>
   fst (collectFiles exampleEnv indexedState ''run'') = [''run.R''] \<and>
   indexes indexedState = [] \<and> searchDefinitions exampleEnv ''run'' = [] \<and>
   entries (onFileMonitorDisabled indexedState) = [] \<and>
   collectFiles exampleEnv (onFileMonitorDisabled indexedState) ''run'' = ([], [], False) \<and>
   collectSourceItems exampleEnv (onFileMonitorDisabled indexedState) ''run'' = [] \<and>
   searchCode exampleEnv (onFileMonitorDisabled indexedState) ''run'' 20
     (buildResult [] [] [] [] [] 20) \<and>
   source_items (buildResult [] [] [] [] [] 20) = []"
proof -
  have e: "entries indexedState \<noteq> []" by code_simp
  have b: "fst (collectFiles exampleEnv indexedState ''run'') = [''run.R'']" by code_simp
  have i: "indexes indexedState = []" by code_simp
  have d: "searchDefinitions exampleEnv ''run'' = []" by code_simp
  have m: "hasFileMonitor exampleEnv" by code_simp
  note t = monitoring_disabled_drops_store [of indexedState exampleEnv "''run''" 20
             "buildResult [] [] [] [] [] 20"]
  have cf: "collectFiles exampleEnv (onFileMonitorDisabled indexedState) ''run'' = ([], [], False)"
    using t m by simp
  have cs: "collectSourceItems exampleEnv (onFileMonitorDisabled indexedState) ''run'' = []"
    using t i d by (simp add: no_live_documents)
  have so: "std_sort ScorePairComparator [] ([] :: PairIntInt list)" by (simp add: std_sort_def)
  have h: "searchCode exampleEnv (onFileMonitorDisabled indexedState) ''run'' 20
             (buildResult [] [] [] [] [] 20)"
    by (rule searchCodeI [OF cf cs _ so _ so]) simp_all
  from t h e b i d cf cs show ?thesis by simp
qed

text \<open>
  Claim C8 as stated returns empty buckets after disabling. With \<^verbatim>\<open>/p/run.R\<close> open as a live
  document, the query \<^verbatim>\<open>run\<close> issued right after the store was cleared returns the
  document's file and its symbol.
\<close>

theorem live_results_after_disabling_counterexample:
  "entries (onFileMonitorDisabled liveState) = [] \<and>
   indexingQueue (onFileMonitorDisabled liveState) = [] \<and>
   searchCode noMonitorEnv (onFileMonitorDisabled liveState) ''run'' 20
     \<lparr>file_names = [''run.R''], file_paths = [''/p/run.R''],
      source_items = [\<lparr>si_type = SFunction, si_name = ''runLive'', si_extraInfo = [],
                       si_context = ''/p/run.R'', si_line = 1, si_column = 1\<rparr>],
      more_available = False\<rparr>"
proof -
  let ?s = "onFileMonitorDisabled liveState"
  let ?item = "\<lparr>si_type = SFunction, si_name = ''runLive'', si_extraInfo = [],
                 si_context = ''/p/run.R'', si_line = 1, si_column = 1\<rparr>"
  have e: "entries ?s = []" "indexingQueue ?s = []" by code_simp+
  have c: "collectFiles noMonitorEnv ?s ''run'' = ([''run.R''], [''/p/run.R''], False)" by code_simp
  have i: "collectSourceItems noMonitorEnv ?s ''run'' = [?item]" by code_simp
  have f: "scoreFrom 0 [''run.R''] ''run'' True = Some [(0, 4)]" by code_simp
  have g: "scoreFrom 0 (map si_name [?item]) ''run'' False = Some [(0, 3)]" by code_simp
  have so: "std_sort ScorePairComparator [(0, 4)] [(0, 4 :: int)]" by (simp add: std_sort_def)
  have so2: "std_sort ScorePairComparator [(0, 3)] [(0, 3 :: int)]" by (simp add: std_sort_def)
  have b: "buildResult [''run.R''] [''/p/run.R''] [?item] [(0, 4)] [(0, 3)] 20 =
      \<lparr>file_names = [''run.R''], file_paths = [''/p/run.R''], source_items = [?item],
       more_available = False\<rparr>"
    by code_simp
  from searchCodeI [OF c i f so g so2, of 20] b e show ?thesis by simp
qed

section \<open>A query with a locator suffix\<close>

text \<open>
  Claim C9, at the input where the code breaks it. The file search matches only the part
  of the term before the first colon, so the term \<^verbatim>\<open>run:1\<close> collects the file \<^verbatim>\<open>run.R\<close>;
  \<^verbatim>\<open>scoreMatch\<close> is then called with the whole term, of which only three characters are
  matched, and reads \<^verbatim>\<open>matches[3]\<close> past the end of a vector of three. The request has no
  defined outcome.
\<close>

theorem locator_query_reads_past_matches:
  "fst (collectFiles exampleEnv indexedState ''run:1'') = [''run.R''] \<and>
   \<not> isSubsequence (to_lower_copy ''run.R'') (to_lower_copy ''run:1'') \<and>
   length (subsequenceIndices (to_lower_copy ''run.R'') (to_lower_copy ''run:1'')) = 3 \<and>
   length ''run:1'' = 5 \<and>
   scoreMatch ''run.R'' ''run:1'' True = None \<and>
   (\<forall>r. \<not> searchCode exampleEnv indexedState ''run:1'' 20 r)"
proof -
  have c: "fst (collectFiles exampleEnv indexedState ''run:1'') = [''run.R'']" by code_simp
  have n: "\<not> isSubsequence (to_lower_copy ''run.R'') (to_lower_copy ''run:1'')" by code_simp
  have l: "length (subsequenceIndices (to_lower_copy ''run.R'') (to_lower_copy ''run:1'')) = 3"
    by code_simp
  have u: "scoreMatch ''run.R'' ''run:1'' True = None" by code_simp
  have "\<not> searchCode exampleEnv indexedState ''run:1'' 20 r" for r
  proof
    assume "searchCode exampleEnv indexedState ''run:1'' 20 r"
    then show False
    proof (cases rule: searchCode.cases)
      case (searchCodeI names paths moreFiles srcItems fileScores fileScoresSorted srcItemScores
            srcItemScoresSorted)
      have "names = [''run.R'']" using c searchCodeI(2) by simp
      then show False using searchCodeI(4) u by simp
    qed
  qed
  with c n l u show ?thesis by simp
qed

end
